theory Spec2Isabelle
  imports Main "HOL-Library.Sublist"
begin

section \<open>Bytes, strings and the Go library functions the parser calls\<close>

text \<open>
  A Go \<^verbatim>\<open>[]byte\<close> and a Go \<^verbatim>\<open>string\<close> are both sequences of 8-bit bytes; both are
  modelled as \<^typ>\<open>string\<close> (a list of 8-bit \<^typ>\<open>char\<close>). \<^verbatim>\<open>len\<close> is \<^const>\<open>length\<close>,
  \<^verbatim>\<open>s[:i]\<close> is \<^term>\<open>take i s\<close> and \<^verbatim>\<open>s[i:]\<close> is \<^term>\<open>drop i s\<close>, used only where the
  code keeps \<open>i\<close> within the length. Lengths and byte counts are \<^typ>\<open>nat\<close>: a Go
  \<^verbatim>\<open>int\<close> has 64 bits and no count below reaches that.
\<close>

definition byte :: "char \<Rightarrow> nat" where
  "byte c = of_char c"

definition CRLF :: string where
  "CRLF = [CHR 0x0D, CHR 0x0A]"

text \<open>
  \<^verbatim>\<open>bytes.Index(s, sep)\<close>: the index of the first occurrence of \<open>sep\<close> in \<open>s\<close>, and
  -1 (here \<^const>\<open>None\<close>) when there is none.
\<close>

fun Index :: "string \<Rightarrow> string \<Rightarrow> nat option" where
  "Index [] sep = (if sep = [] then Some 0 else None)"
| "Index (c # s) sep =
     (if prefix sep (c # s) then Some 0 else map_option Suc (Index s sep))"

text \<open>
  \<^verbatim>\<open>bytes.SplitN(s, sep, 2)\<close> for a separator of one byte: the part before the first
  separator and the part after it, or \<open>s\<close> alone when it holds no separator.
\<close>

definition SplitN2 :: "string \<Rightarrow> char \<Rightarrow> string list" where
  "SplitN2 s sep =
     (if sep \<in> set s
      then [takeWhile (\<lambda>c. c \<noteq> sep) s, tl (dropWhile (\<lambda>c. c \<noteq> sep) s)]
      else [s])"

text \<open>
  \<^verbatim>\<open>bytes.Split(s, sep)\<close> and \<^verbatim>\<open>strings.Split(s, sep)\<close> for a separator of one
  byte: all the parts between separators, one more than there are separators.
\<close>

fun Split :: "string \<Rightarrow> char \<Rightarrow> string list" where
  "Split [] sep = [[]]"
| "Split (c # s) sep =
     (if c = sep then [] # Split s sep
      else (case Split s sep of p # ps \<Rightarrow> (c # p) # ps | [] \<Rightarrow> [[c]]))"

text \<open>
  \<^verbatim>\<open>bytes.TrimSpace\<close> removes, first from the front and then from the back, every rune
  for which \<^verbatim>\<open>unicode.IsSpace\<close> holds. On bytes these are the six ASCII spaces and the
  UTF-8 encodings of U+0085, U+00A0, U+1680, U+2000 to U+200A, U+2028, U+2029, U+202F,
  U+205F and U+3000. A byte sequence that is not a valid encoding decodes to the error
  rune of width 1, which is no space, so trimming stops there.
\<close>

definition space_runes :: "string list" where
  "space_runes =
     [[CHR 0x09], [CHR 0x0A], [CHR 0x0B], [CHR 0x0C], [CHR 0x0D], [CHR 0x20],
      [CHR 0xC2, CHR 0x85], [CHR 0xC2, CHR 0xA0],
      [CHR 0xE1, CHR 0x9A, CHR 0x80],
      [CHR 0xE2, CHR 0x80, CHR 0x80], [CHR 0xE2, CHR 0x80, CHR 0x81],
      [CHR 0xE2, CHR 0x80, CHR 0x82], [CHR 0xE2, CHR 0x80, CHR 0x83],
      [CHR 0xE2, CHR 0x80, CHR 0x84], [CHR 0xE2, CHR 0x80, CHR 0x85],
      [CHR 0xE2, CHR 0x80, CHR 0x86], [CHR 0xE2, CHR 0x80, CHR 0x87],
      [CHR 0xE2, CHR 0x80, CHR 0x88], [CHR 0xE2, CHR 0x80, CHR 0x89],
      [CHR 0xE2, CHR 0x80, CHR 0x8A],
      [CHR 0xE2, CHR 0x80, CHR 0xA8], [CHR 0xE2, CHR 0x80, CHR 0xA9],
      [CHR 0xE2, CHR 0x80, CHR 0xAF],
      [CHR 0xE2, CHR 0x81, CHR 0x9F],
      [CHR 0xE3, CHR 0x80, CHR 0x80]]"

definition leading_space :: "string \<Rightarrow> nat" where
  "leading_space s =
     (case find (\<lambda>q. prefix q s) space_runes of None \<Rightarrow> 0 | Some q \<Rightarrow> length q)"

definition trailing_space :: "string \<Rightarrow> nat" where
  "trailing_space s =
     (case find (\<lambda>q. suffix q s) space_runes of None \<Rightarrow> 0 | Some q \<Rightarrow> length q)"

lemma leading_space_le: "leading_space s \<le> length s"
  by (auto simp: leading_space_def find_Some_iff prefix_length_le split: option.splits)

lemma trailing_space_le: "trailing_space s \<le> length s"
  by (auto simp: trailing_space_def find_Some_iff suffix_length_le split: option.splits)

function TrimLeft :: "string \<Rightarrow> string" where
  "TrimLeft s =
     (if leading_space s = 0 then s else TrimLeft (drop (leading_space s) s))"
  by pat_completeness auto
termination
proof (relation "measure length")
  fix s :: string
  assume "leading_space s \<noteq> 0"
  moreover have "leading_space s \<le> length s" by (rule leading_space_le)
  ultimately show "(drop (leading_space s) s, s) \<in> measure length" by simp
qed simp

function TrimRight :: "string \<Rightarrow> string" where
  "TrimRight s =
     (if trailing_space s = 0 then s
      else TrimRight (take (length s - trailing_space s) s))"
  by pat_completeness auto
termination
proof (relation "measure length")
  fix s :: string
  assume "trailing_space s \<noteq> 0"
  moreover have "trailing_space s \<le> length s" by (rule trailing_space_le)
  ultimately show "(take (length s - trailing_space s) s, s) \<in> measure length"
    by simp
qed simp

declare TrimLeft.simps [simp del] TrimRight.simps [simp del]

definition TrimSpace :: "string \<Rightarrow> string" where
  "TrimSpace s = TrimRight (TrimLeft s)"

text \<open>
  \<^verbatim>\<open>strings.ToLower\<close> has a path for strings of ASCII bytes only, written out here: a
  byte from \<open>A\<close> to \<open>Z\<close> is raised by \<open>'a' - 'A'\<close>, every other byte is kept. On a
  string holding a byte of 128 or more it calls \<^verbatim>\<open>strings.Map(unicode.ToLower, s)\<close>, which
  reads the Unicode case tables of the Go distribution; these tables are not part of the
  repository, so that mapping is the parameter \<open>ul\<close> of every function that lowercases.
\<close>

type_synonym unicode_lower = "string \<Rightarrow> string"

definition lower_byte :: "char \<Rightarrow> char" where
  "lower_byte c = (if 65 \<le> byte c \<and> byte c \<le> 90 then char_of (byte c + 32) else c)"

definition ToLower :: "unicode_lower \<Rightarrow> string \<Rightarrow> string" where
  "ToLower ul s = (if \<forall>c \<in> set s. byte c < 128 then map lower_byte s else ul s)"


text \<open>
  \<^verbatim>\<open>strconv.ParseInt(s, 10, 64)\<close>: an optional sign, then one or more decimal digits
  and nothing else; the value must fit a signed 64-bit integer. Every failure is an
  error (here \<^const>\<open>None\<close>): the caller only tests \<^verbatim>\<open>err != nil\<close>.
\<close>

definition is_digit :: "char \<Rightarrow> bool" where
  "is_digit c \<longleftrightarrow> 48 \<le> byte c \<and> byte c \<le> 57"

definition digits_value :: "string \<Rightarrow> int" where
  "digits_value ds = foldl (\<lambda>acc c. 10 * acc + (int (byte c) - 48)) 0 ds"

definition ParseUint :: "string \<Rightarrow> int option" where
  "ParseUint s =
     (if s = [] \<or> \<not> list_all is_digit s then None
      else if digits_value s \<ge> 2 ^ 64 then None
      else Some (digits_value s))"

definition ParseInt :: "string \<Rightarrow> int option" where
  "ParseInt s =
     (case s of
        [] \<Rightarrow> None
      | c # rest \<Rightarrow>
          (let neg = (c = CHR ''-'');
               s' = (if c = CHR ''+'' \<or> c = CHR ''-'' then rest else s)
           in case ParseUint s' of
                None \<Rightarrow> None
              | Some un \<Rightarrow>
                  if \<not> neg \<and> un \<ge> 2 ^ 63 then None
                  else if neg \<and> un > 2 ^ 63 then None
                  else Some (if neg then - un else un)))"

section \<open>Errors\<close>

text \<open>
  One type for every error value of the two packages. The header package builds its
  errors with \<^verbatim>\<open>fmt.Errorf\<close> from a fixed message, named here after the message; the
  request package declares its errors as variables and wraps three of them with the
  offending value. \<open>EOF\<close> is \<^verbatim>\<open>io.EOF\<close>, and \<open>ErrRead\<close> any other error of a reader.
\<close>

datatype error =
    EOF
  | ErrRead string
  | ErrMalformedHeader
  | ErrInvalidSpacing
  | ErrFieldNameEmpty
  | ErrInvalidFieldNameChar char
  | ErrMalformedReqLine
  | ErrInvalidMethod
  | ErrUnsupportedHttpVer
  | ErrInvalidHttpFormat
  | ErrParserDone
  | ErrUnknownState
  | ErrInvalidContentLength string
  | ErrInvalidContentLengthNegative int
  | ErrContentLengthTooLarge int
  | ErrBodyExceedsContentLength
  | ErrMultipleContentLength

section \<open>Package headers\<close>

record Headers =
  headers :: "string \<rightharpoonup> string"

definition Get :: "unicode_lower \<Rightarrow> Headers \<Rightarrow> string \<Rightarrow> string" where
  "Get ul h key = (case headers h (ToLower ul key) of None \<Rightarrow> [] | Some v \<Rightarrow> v)"

definition Set :: "unicode_lower \<Rightarrow> Headers \<Rightarrow> string \<Rightarrow> string \<Rightarrow> Headers" where
  "Set ul h key val =
     (let key = ToLower ul key
      in case headers h key of
           Some v \<Rightarrow> h\<lparr>headers := (headers h)(key \<mapsto> v @ '', '' @ val)\<rparr>
         | None \<Rightarrow> h\<lparr>headers := (headers h)(key \<mapsto> val)\<rparr>)"

definition NewHeaders :: Headers where
  "NewHeaders = \<lparr>headers = Map.empty\<rparr>"

definition isValidTokenChar :: "char \<Rightarrow> bool" where
  "isValidTokenChar c \<longleftrightarrow>
     (97 \<le> byte c \<and> byte c \<le> 122) \<or> (65 \<le> byte c \<and> byte c \<le> 90)
     \<or> (48 \<le> byte c \<and> byte c \<le> 57)
     \<or> c \<in> set ''!#$%&'' \<or> c = CHR 0x27 \<or> c \<in> set ''*+-.^_`|~''"

definition validateFieldName :: "string \<Rightarrow> error option" where
  "validateFieldName name =
     (if length name = 0 then Some ErrFieldNameEmpty
      else (case find (\<lambda>c. \<not> isValidTokenChar c) name of
              Some c \<Rightarrow> Some (ErrInvalidFieldNameChar c)
            | None \<Rightarrow> None))"

definition parseHeader :: "unicode_lower \<Rightarrow> string \<Rightarrow> error + (string \<times> string)" where
  "parseHeader ul fieldLine =
     (let parts = SplitN2 fieldLine (CHR '':'')
      in if length parts \<noteq> 2 then Inl ErrMalformedHeader
         else if suffix '' '' (parts ! 0) then Inl ErrInvalidSpacing
         else
           (let name = ToLower ul (TrimSpace (parts ! 0));
                val = TrimSpace (parts ! 1)
            in case validateFieldName name of
                 Some err \<Rightarrow> Inl err
               | None \<Rightarrow> Inr (name, val)))"

text \<open>
  \<open>Parse\<close> returns \<^verbatim>\<open>(n, done, err)\<close> and, as it mutates the receiver, the header
  collection after the call.
\<close>

definition Parse ::
  "unicode_lower \<Rightarrow> Headers \<Rightarrow> string \<Rightarrow> (nat \<times> bool \<times> error option) \<times> Headers" where
  "Parse ul h data =
     (case Index data CRLF of
        None \<Rightarrow> ((0, False, None), h)
      | Some readIdx \<Rightarrow>
          if readIdx = 0 then ((length CRLF, True, None), h)
          else (case parseHeader ul (take readIdx data) of
                  Inl err \<Rightarrow> ((0, False, Some err), h)
                | Inr (fieldName, fieldValue) \<Rightarrow>
                    ((readIdx + length CRLF, False, None), Set ul h fieldName fieldValue)))"


section \<open>Package request\<close>

datatype ParserState = StateInitialized | StateHeaders | StateBody | StateDone

definition bufferSize :: nat where
  "bufferSize = 1024"

definition MaxContentLength :: int where
  "MaxContentLength = 10 * 1024 * 1024"

record RequestLine =
  HttpVersion :: string
  RequestTarget :: string
  Method :: string

text \<open>
  \<open>Body\<close> is a Go slice: \<^const>\<open>None\<close> is the nil slice, \<open>Some bs\<close> a slice with
  backing storage. \<open>state\<close> only ever holds one of the four declared constants, so
  the \<^verbatim>\<open>default\<close> branch of \<open>parseSingle\<close> (\<open>ErrUnknownState\<close>) has no counterpart.
\<close>

record Request =
  RequestLine :: RequestLine
  Headers :: Headers
  Body :: "string option"
  state :: ParserState

definition NewRequest :: Request where
  "NewRequest =
     \<lparr>RequestLine = \<lparr>HttpVersion = [], RequestTarget = [], Method = []\<rparr>,
      Headers = NewHeaders, Body = None, state = StateInitialized\<rparr>"

text \<open>
  The built-in \<^verbatim>\<open>append(s, data...)\<close> returns \<open>s\<close> itself when \<open>data\<close> is empty, so a
  nil slice stays nil; otherwise the result has storage. \<^verbatim>\<open>len\<close> of nil is 0.
\<close>

definition append_slice :: "string option \<Rightarrow> string \<Rightarrow> string option" where
  "append_slice s data =
     (if data = [] then s
      else Some ((case s of None \<Rightarrow> [] | Some bs \<Rightarrow> bs) @ data))"

definition len_slice :: "string option \<Rightarrow> nat" where
  "len_slice s = (case s of None \<Rightarrow> 0 | Some bs \<Rightarrow> length bs)"

definition getAndValidateContentLength :: "unicode_lower \<Rightarrow> Request \<Rightarrow> error + int" where
  "getAndValidateContentLength ul r =
     (let contentLengthStr = Get ul (Headers r) ''content-length''
      in if contentLengthStr = [] then Inr 0
         else if CHR '','' \<in> set contentLengthStr then Inl ErrMultipleContentLength
         else (case ParseInt contentLengthStr of
                 None \<Rightarrow> Inl (ErrInvalidContentLength contentLengthStr)
               | Some contentLength \<Rightarrow>
                   if contentLength < 0
                   then Inl (ErrInvalidContentLengthNegative contentLength)
                   else if contentLength > MaxContentLength
                   then Inl (ErrContentLengthTooLarge contentLength)
                   else Inr contentLength))"

text \<open>
  \<open>validateMethod\<close> ranges over the runes of the method. An ASCII byte is a rune by
  itself, and a byte of 128 or more belongs to a rune of 128 or more (or to the error
  rune U+FFFD), which is outside \<open>A\<close> to \<open>Z\<close> and is not \<open>-\<close>: the test on runes is the
  same test on bytes.
\<close>

definition validateMethod :: "string \<Rightarrow> error option" where
  "validateMethod method =
     (if length method = 0 then Some ErrInvalidMethod
      else if list_all (\<lambda>c. (65 \<le> byte c \<and> byte c \<le> 90) \<or> c = CHR ''-'') method
      then None else Some ErrInvalidMethod)"

definition validateHttpVersion :: "string \<Rightarrow> error option" where
  "validateHttpVersion version =
     (let parts = Split version (CHR ''/'')
      in if length parts \<noteq> 2 then Some ErrInvalidHttpFormat
         else if parts ! 0 \<noteq> ''HTTP'' then Some ErrInvalidHttpFormat
         else if parts ! 1 \<noteq> ''1.1'' then Some ErrUnsupportedHttpVer
         else None)"

text \<open>
  \<open>parseRequestLine\<close> returns one of three shapes: \<^verbatim>\<open>(nil, 0, err)\<close>, here \<open>Inl err\<close>;
  \<^verbatim>\<open>(nil, 0, nil)\<close> when the line is not complete, here \<open>Inr None\<close>; and
  \<^verbatim>\<open>(rl, bytesConsumed, nil)\<close>, here \<open>Inr (Some (rl, bytesConsumed))\<close>.
\<close>

definition parseRequestLine :: "string \<Rightarrow> error + (RequestLine \<times> nat) option" where
  "parseRequestLine data =
     (case Index data CRLF of
        None \<Rightarrow> Inr None
      | Some idx \<Rightarrow>
          (let reqLineBytes = take idx data;
               bytesConsumed = idx + length CRLF;
               parts = Split reqLineBytes (CHR '' '')
           in if length parts \<noteq> 3 then Inl ErrMalformedReqLine
              else
                (let method = parts ! 0; target = parts ! 1; version = parts ! 2
                 in case validateMethod method of
                      Some err \<Rightarrow> Inl err
                    | None \<Rightarrow>
                        (case validateHttpVersion version of
                           Some err \<Rightarrow> Inl err
                         | None \<Rightarrow>
                             (let versionParts = Split version (CHR ''/'')
                              in Inr (Some
                                   (\<lparr>HttpVersion = versionParts ! 1,
                                     RequestTarget = target,
                                     Method = method\<rparr>, bytesConsumed)))))))"

text \<open>
  \<open>parseSingle\<close> and \<open>parse\<close> return \<^verbatim>\<open>(n, err)\<close> and the request after the call: the
  receiver is mutated in place, also on the path that returns
  \<open>ErrBodyExceedsContentLength\<close>, where the body has already grown.
\<close>

definition parseSingle ::
  "unicode_lower \<Rightarrow> Request \<Rightarrow> string \<Rightarrow> (nat \<times> error option) \<times> Request" where
  "parseSingle ul r data =
     (case state r of
        StateInitialized \<Rightarrow>
          (case parseRequestLine data of
             Inl err \<Rightarrow> ((0, Some err), r)
           | Inr None \<Rightarrow> ((0, None), r)
           | Inr (Some (rl, bytesConsumed)) \<Rightarrow>
               if bytesConsumed = 0 then ((0, None), r)
               else ((bytesConsumed, None), r\<lparr>RequestLine := rl, state := StateHeaders\<rparr>))
      | StateHeaders \<Rightarrow>
          (case Parse ul (Headers r) data of
             ((bytesConsumed, done, Some err), h) \<Rightarrow> ((0, Some err), r\<lparr>Headers := h\<rparr>)
           | ((bytesConsumed, done, None), h) \<Rightarrow>
               ((bytesConsumed, None),
                (if done then r\<lparr>Headers := h, state := StateBody\<rparr> else r\<lparr>Headers := h\<rparr>)))
      | StateBody \<Rightarrow>
          (case getAndValidateContentLength ul r of
             Inl err \<Rightarrow> ((0, Some err), r)
           | Inr contentLength \<Rightarrow>
               if contentLength = 0 then ((0, None), r\<lparr>state := StateDone\<rparr>)
               else
                 (let r1 = r\<lparr>Body := append_slice (Body r) data\<rparr>
                  in if int (len_slice (Body r1)) > contentLength
                     then ((0, Some ErrBodyExceedsContentLength), r1)
                     else if int (len_slice (Body r1)) = contentLength
                     then ((length data, None), r1\<lparr>state := StateDone\<rparr>)
                     else ((length data, None), r1)))
      | StateDone \<Rightarrow> ((0, Some ErrParserDone), r))"


lemma Index_le: "Index s sep = Some i \<Longrightarrow> i + length sep \<le> length s"
proof (induction s arbitrary: i)
  case Nil
  then show ?case by (simp split: if_splits)
next
  case (Cons c s)
  show ?case
  proof (cases "prefix sep (c # s)")
    case True
    with Cons.prems show ?thesis by (auto dest: prefix_length_le)
  next
    case False
    with Cons.prems obtain j where "Index s sep = Some j" "i = Suc j" by auto
    with Cons.IH show ?thesis by simp
  qed
qed

lemma Parse_consumed_le: "Parse ul h data = ((n, d, e), h') \<Longrightarrow> n \<le> length data"
  by (auto simp: Parse_def split: option.splits if_splits sum.splits dest: Index_le)

lemma parseRequestLine_consumed_le:
  "parseRequestLine data = Inr (Some (rl, n)) \<Longrightarrow> n \<le> length data"
  by (auto simp: parseRequestLine_def Let_def split: option.splits if_splits dest: Index_le)

lemma parseSingle_consumed_le: "parseSingle ul r data = ((n, e), r') \<Longrightarrow> n \<le> length data"
  by (auto simp: parseSingle_def Let_def
      split: ParserState.splits sum.splits option.splits if_splits prod.splits
      dest: Parse_consumed_le parseRequestLine_consumed_le)

text \<open>
  The loop of \<open>parse\<close>, with \<open>totalBytesParsed\<close> as an argument. Each turn that goes on
  has consumed at least one byte of \<^verbatim>\<open>data[totalBytesParsed:]\<close>, which is what ends it.
\<close>

function parse_loop ::
  "unicode_lower \<Rightarrow> Request \<Rightarrow> string \<Rightarrow> nat \<Rightarrow> (nat \<times> error option) \<times> Request" where
  "parse_loop ul r data totalBytesParsed =
     (if state r = StateDone then ((totalBytesParsed, None), r)
      else (case parseSingle ul r (drop totalBytesParsed data) of
              ((n, Some err), r') \<Rightarrow> ((totalBytesParsed, Some err), r')
            | ((n, None), r') \<Rightarrow>
                if n = 0 then ((totalBytesParsed, None), r')
                else parse_loop ul r' data (totalBytesParsed + n)))"
  by pat_completeness auto
termination
proof (relation "measure (\<lambda>(ul, r, data, total). length data - total)")
  fix ul r data totalBytesParsed x y xa ya
  assume "(x, y) = parseSingle ul r (drop totalBytesParsed data)"
    and "(xa, ya) = x" and "ya = None" and "xa \<noteq> 0"
  then have "parseSingle ul r (drop totalBytesParsed data) = ((xa, None), y)"
    by simp
  then have "xa \<le> length (drop totalBytesParsed data)"
    by (rule parseSingle_consumed_le)
  with \<open>xa \<noteq> 0\<close>
  show "((ul, y, data, totalBytesParsed + xa), (ul, r, data, totalBytesParsed))
      \<in> measure (\<lambda>(ul, r, data, total). length data - total)"
    by simp
qed simp

declare parse_loop.simps [simp del]

definition parse ::
  "unicode_lower \<Rightarrow> Request \<Rightarrow> string \<Rightarrow> (nat \<times> error option) \<times> Request" where
  "parse ul r data = parse_loop ul r data 0"


section \<open>The byte source and the reader loop\<close>

text \<open>
  An \<^verbatim>\<open>io.Reader\<close> is a state and its \<^verbatim>\<open>Read(p)\<close>: given the state and \<^verbatim>\<open>len(p)\<close>, it
  returns the bytes it has written to the front of \<open>p\<close> (their number is \<open>n\<close>), the
  error, and its next state. By the contract of \<^verbatim>\<open>io.Reader\<close> it writes at most
  \<^verbatim>\<open>len(p)\<close> bytes, and it may return bytes together with \<^verbatim>\<open>io.EOF\<close>.
\<close>

type_synonym 's reader = "'s \<Rightarrow> nat \<Rightarrow> (string \<times> error option) \<times> 's"

text \<open>The reader of the tests; \<open>numBytesPerRead\<close> is taken non-negative.\<close>

record chunkReader =
  data :: string
  numBytesPerRead :: nat
  pos :: nat

definition chunkReader_Read :: "chunkReader reader" where
  "chunkReader_Read cr lenp =
     (if pos cr \<ge> length (data cr) then (([], Some EOF), cr)
      else
        (let endIndex = pos cr + numBytesPerRead cr;
             endIndex = (if endIndex > length (data cr) then length (data cr) else endIndex);
             copied = take lenp (take (endIndex - pos cr) (drop (pos cr) (data cr)));
             n = length copied
         in ((copied, None), cr\<lparr>pos := pos cr + n\<rparr>)))"

text \<open>
  The loop of \<open>RequestFromReader\<close>. Of the buffer only \<^verbatim>\<open>buf[:readToIdx]\<close> is ever read
  (it is what \<open>parse\<close> gets); the bytes behind it are overwritten by \<open>Read\<close> before they
  count. So the buffer is carried as \<open>pending\<close>, the contents of \<^verbatim>\<open>buf[:readToIdx]\<close>, and
  \<open>cap\<close>, which is \<^verbatim>\<open>len(buf)\<close>: \<open>readToIdx\<close> is \<^term>\<open>length pending\<close>, and the move of the
  unconsumed bytes to the front is \<^term>\<open>drop bytesConsumed filled\<close>. A reader that never
  returns \<^verbatim>\<open>io.EOF\<close> and never lets the parser finish keeps the loop running for ever:
  the function is partial, and \<^const>\<open>None\<close> is the run that does not return.
\<close>

partial_function (option) read_loop ::
  "unicode_lower \<Rightarrow> 's reader \<Rightarrow> 's \<Rightarrow> Request \<Rightarrow> string \<Rightarrow> nat \<Rightarrow> (error + Request) option"
  where
  "read_loop ul rd s req pending cap =
     (if state req = StateDone then Some (Inr req)
      else
        (let cap = (if length pending \<ge> cap then cap * 2 else cap)
         in case rd s (cap - length pending) of
              ((bs, Some err), s') \<Rightarrow>
                if err = EOF then Some (Inr req) else Some (Inl err)
            | ((bs, None), s') \<Rightarrow>
                (let filled = pending @ bs
                 in case parse ul req filled of
                      ((bytesConsumed, Some err), req') \<Rightarrow> Some (Inl err)
                    | ((bytesConsumed, None), req') \<Rightarrow>
                        read_loop ul rd s' req' (drop bytesConsumed filled) cap)))"

definition RequestFromReader ::
  "unicode_lower \<Rightarrow> 's reader \<Rightarrow> 's \<Rightarrow> (error + Request) option" where
  "RequestFromReader ul rd s = read_loop ul rd s NewRequest [] bufferSize"


declare read_loop.simps [code]

text \<open>
  A reader that hands out everything it holds in a single \<open>Read\<close> and reports
  \<^verbatim>\<open>io.EOF\<close> in that same call, as the contract of \<^verbatim>\<open>io.Reader\<close> allows.
\<close>

definition eofReader_Read :: "string reader" where
  "eofReader_Read held lenp = ((take lenp held, Some EOF), drop lenp held)"

section \<open>The terminal state\<close>

lemma parseHeader_not_ParserDone: "parseHeader ul fieldLine \<noteq> Inl ErrParserDone"
  by (auto simp: parseHeader_def validateFieldName_def Let_def split: option.splits if_splits)

lemma Parse_not_ParserDone: "Parse ul h inp = ((n, d, Some e), h') \<Longrightarrow> e \<noteq> ErrParserDone"
  using parseHeader_not_ParserDone [of ul]
  by (auto simp: Parse_def split: option.splits if_splits sum.splits)

lemma parseRequestLine_not_ParserDone: "parseRequestLine inp \<noteq> Inl ErrParserDone"
  by (auto simp: parseRequestLine_def validateMethod_def validateHttpVersion_def Let_def
      split: option.splits if_splits)

lemma getAndValidateContentLength_not_ParserDone:
  "getAndValidateContentLength ul r \<noteq> Inl ErrParserDone"
  by (auto simp: getAndValidateContentLength_def Let_def split: option.splits if_splits)

lemma parseSingle_ParserDone_iff:
  "snd (fst (parseSingle ul r inp)) = Some ErrParserDone \<longleftrightarrow> state r = StateDone"
proof (cases "state r")
  case StateInitialized
  then show ?thesis
    using parseRequestLine_not_ParserDone [of inp]
    by (auto simp: parseSingle_def split: sum.splits option.splits)
next
  case StateHeaders
  then show ?thesis
    using Parse_not_ParserDone [of ul "Headers r" inp]
    by (auto simp: parseSingle_def split: prod.splits option.splits)
next
  case StateBody
  then show ?thesis
    using getAndValidateContentLength_not_ParserDone [of ul r]
    by (auto simp: parseSingle_def Let_def split: sum.splits)
next
  case StateDone
  then show ?thesis by (simp add: parseSingle_def)
qed

lemma parse_loop_not_ParserDone:
  "snd (fst (parse_loop ul r inp tot)) \<noteq> Some ErrParserDone"
proof (induction ul r inp tot rule: parse_loop.induct)
  case (1 ul r inp tot)
  show ?case
  proof (cases "state r = StateDone")
    case True
    then show ?thesis by (simp add: parse_loop.simps)
  next
    case False
    obtain n e r' where ps: "parseSingle ul r (drop tot inp) = ((n, e), r')"
      by (metis surj_pair)
    show ?thesis
    proof (cases e)
      case (Some err)
      from False have "snd (fst (parseSingle ul r (drop tot inp))) \<noteq> Some ErrParserDone"
        by (simp add: parseSingle_ParserDone_iff)
      with ps Some False show ?thesis
        by (simp add: parse_loop.simps [of ul r inp tot])
    next
      case None
      show ?thesis
      proof (cases "n = 0")
        case True
        with ps None False show ?thesis
          by (simp add: parse_loop.simps [of ul r inp tot])
      next
        case n: False
        have "snd (fst (parse_loop ul r' inp (tot + n))) \<noteq> Some ErrParserDone"
          using "1.IH" [of "(n, e)" r' n e] False ps None n by simp
        with ps None False n show ?thesis
          by (simp add: parse_loop.simps [of ul r inp tot])
      qed
    qed
  qed
qed

text \<open>
  Claim C9. Once the request is in \<open>StateDone\<close>, \<open>parse\<close> returns 0 bytes consumed and no
  error and leaves the request as it is: its loop does not run. \<open>ErrParserDone\<close> is what
  \<open>parseSingle\<close> returns exactly when it is itself called in \<open>StateDone\<close>, and \<open>parse\<close>
  returns it from no state.
\<close>

theorem parse_in_StateDone:
  "(state r = StateDone \<longrightarrow> parse ul r inp = ((0, None), r))
   \<and> (snd (fst (parseSingle ul r inp)) = Some ErrParserDone \<longleftrightarrow> state r = StateDone)
   \<and> snd (fst (parse ul r' inp')) \<noteq> Some ErrParserDone"
  by (simp add: parse_def parse_loop.simps [of ul r inp 0] parseSingle_ParserDone_iff
      parse_loop_not_ParserDone)

definition finished_request :: Request where
  "finished_request = snd (parse undefined NewRequest (''GET / HTTP/1.1'' @ CRLF @ CRLF))"

lemma finished_request_state: "state finished_request = StateDone"
  by code_simp

theorem parse_in_StateDone_witness:
  "state finished_request = StateDone
   \<and> parse undefined finished_request ''GET / HTTP/1.1'' = ((0, None), finished_request)
   \<and> parseSingle undefined finished_request ''GET / HTTP/1.1''
       = ((0, Some ErrParserDone), finished_request)"
  using parse_in_StateDone [of finished_request undefined "''GET / HTTP/1.1''"]
    finished_request_state
  by (simp add: parseSingle_def)

section \<open>Bytes that arrive together with the end of input\<close>

text \<open>
  Claim C10. When a \<open>Read\<close> returns \<^verbatim>\<open>io.EOF\<close>, the loop of \<open>RequestFromReader\<close> stops
  before it looks at the byte count: whatever bytes \<open>bs\<close> came with that call are never
  added to the buffer and never parsed. The result is the request as it was before the
  call, with no error.
\<close>

theorem read_with_EOF_discarded:
  assumes "state req \<noteq> StateDone"
    and "rd s ((if length pending \<ge> cap then cap * 2 else cap) - length pending)
           = ((bs, Some EOF), s')"
  shows "read_loop ul rd s req pending cap = Some (Inr req)"
  using assms by (subst read_loop.simps) (simp add: Let_def)

theorem read_with_EOF_discarded_witness:
  "state NewRequest \<noteq> StateDone
   \<and> eofReader_Read (''GET / HTTP/1.1'' @ CRLF @ CRLF)
        ((if length ([] :: string) \<ge> bufferSize then bufferSize * 2 else bufferSize)
          - length ([] :: string))
      = ((''GET / HTTP/1.1'' @ CRLF @ CRLF, Some EOF), [])
   \<and> RequestFromReader undefined eofReader_Read (''GET / HTTP/1.1'' @ CRLF @ CRLF)
      = Some (Inr NewRequest)"
proof -
  have st: "state NewRequest \<noteq> StateDone"
    by (simp add: NewRequest_def)
  have rd: "eofReader_Read (''GET / HTTP/1.1'' @ CRLF @ CRLF)
        ((if length ([] :: string) \<ge> bufferSize then bufferSize * 2 else bufferSize)
          - length ([] :: string))
      = ((''GET / HTTP/1.1'' @ CRLF @ CRLF, Some EOF), [])"
    by (simp add: eofReader_Read_def bufferSize_def CRLF_def)
  from read_with_EOF_discarded
         [where req = NewRequest and rd = eofReader_Read and pending = "[]"
            and cap = bufferSize and ul = undefined, OF st rd] st rd
  show ?thesis
    by (simp add: RequestFromReader_def)
qed

section \<open>The version field of the request line\<close>

lemma Split_not_Nil: "Split s sep \<noteq> []"
  by (cases s) (auto split: list.splits)

lemma Split_no_sep: "sep \<notin> set s \<Longrightarrow> Split s sep = [s]"
  by (induction s) auto

lemma Split_append_sep: "sep \<notin> set a \<Longrightarrow> Split (a @ sep # b) sep = a # Split b sep"
  by (induction a) auto

lemma length_Split: "length (Split s sep) = Suc (count_list s sep)"
proof (induction s)
  case Nil
  show ?case by simp
next
  case (Cons c s)
  then show ?case by (cases "Split s sep") auto
qed

lemma Index_append_Some: "Index a sep = Some i \<Longrightarrow> Index (a @ b) sep = Some i"
proof (induction a arbitrary: i)
  case Nil
  then show ?case by (cases b) (auto split: if_splits)
next
  case (Cons c a)
  show ?case
  proof (cases "prefix sep (c # a)")
    case True
    then have "prefix sep ((c # a) @ b)" by (rule prefix_prefix)
    with True Cons.prems show ?thesis by simp
  next
    case False
    with Cons.prems obtain j where j: "Index a sep = Some j" "i = Suc j" by auto
    from j(1) have le: "j + length sep \<le> length a" by (rule Index_le)
    have "\<not> prefix sep ((c # a) @ b)"
    proof
      assume "prefix sep ((c # a) @ b)"
      moreover from le have "length sep \<le> length (c # a)" by simp
      ultimately have "prefix sep (c # a)"
        by (metis prefix_length_prefix prefixI append_Cons)
      with False show False ..
    qed
    with j Cons.IH [OF j(1)] show ?thesis by simp
  qed
qed

lemma Index_line:
  "Index line CRLF = None \<Longrightarrow> Index (line @ CRLF @ rest) CRLF = Some (length line)"
proof (induction line)
  case Nil
  show ?case by (simp add: CRLF_def)
next
  case (Cons c line)
  from Cons.prems have np: "\<not> prefix CRLF (c # line)" and none: "Index line CRLF = None"
    by (auto split: if_splits)
  have "\<not> prefix CRLF ((c # line) @ CRLF @ rest)"
    using np by (cases line) (auto simp: CRLF_def)
  with Cons.IH [OF none] show ?case by simp
qed


lemma Split_three_fields:
  assumes "CHR '' '' \<notin> set m" "CHR '' '' \<notin> set t" "CHR '' '' \<notin> set v"
  shows "Split (m @ '' '' @ t @ '' '' @ v) (CHR '' '') = [m, t, v]"
  using assms by (simp add: Split_append_sep Split_no_sep)

lemma Split_first_part:
  assumes "count_list v sep = 1"
  shows "\<exists>a b. v = a @ sep # b \<and> sep \<notin> set a \<and> sep \<notin> set b \<and> Split v sep = [a, b]"
proof -
  from assms have "sep \<in> set v"
    by (metis count_list_0_iff zero_neq_one)
  then obtain a b where ab: "v = a @ sep # b" "sep \<notin> set a"
    by (auto dest: split_list_first)
  with assms have "count_list b sep = 0" by (simp add: count_list_0_iff)
  then have "sep \<notin> set b" by (simp add: count_list_0_iff)
  with ab show ?thesis by (auto simp: Split_append_sep Split_no_sep)
qed

lemma validateHttpVersion_format:
  assumes "count_list v (CHR ''/'') \<noteq> 1 \<or> \<not> prefix ''HTTP/'' v"
  shows "validateHttpVersion v = Some ErrInvalidHttpFormat"
proof (cases "count_list v (CHR ''/'') = 1")
  case False
  then show ?thesis by (simp add: validateHttpVersion_def Let_def length_Split)
next
  case True
  then obtain a b where ab: "v = a @ CHR ''/'' # b" "Split v (CHR ''/'') = [a, b]"
    using Split_first_part by blast
  with True assms have "a \<noteq> ''HTTP''" by auto
  with ab show ?thesis by (simp add: validateHttpVersion_def Let_def)
qed

lemma validateHttpVersion_unsupported:
  assumes "CHR ''/'' \<notin> set ver" "ver \<noteq> ''1.1''"
  shows "validateHttpVersion (''HTTP/'' @ ver) = Some ErrUnsupportedHttpVer"
proof -
  have "Split (''HTTP'' @ CHR ''/'' # ver) (CHR ''/'') = [''HTTP'', ver]"
    using assms(1) by (subst Split_append_sep) (simp_all add: Split_no_sep)
  then show ?thesis using assms(2) by (simp add: validateHttpVersion_def Let_def)
qed

lemma parseRequestLine_version_error:
  assumes line: "Index (m @ '' '' @ t @ '' '' @ v) CRLF = None"
    and fields: "CHR '' '' \<notin> set m" "CHR '' '' \<notin> set t" "CHR '' '' \<notin> set v"
    and valid_m: "validateMethod m = None"
    and invalid_v: "validateHttpVersion v = Some err"
  shows "parseRequestLine ((m @ '' '' @ t @ '' '' @ v) @ CRLF @ rest) = Inl err"
proof -
  let ?line = "m @ '' '' @ t @ '' '' @ v"
  have "Index (?line @ CRLF @ rest) CRLF = Some (length ?line)"
    using line by (rule Index_line)
  moreover have "Split ?line (CHR '' '') = [m, t, v]"
    using fields by (rule Split_three_fields)
  ultimately show ?thesis
    using valid_m invalid_v by (simp add: parseRequestLine_def Let_def)
qed

text \<open>
  Claim C7. Take a complete request line with exactly three fields separated by single
  spaces, \<open>m\<close>, \<open>t\<close> and \<open>v\<close>, and a method \<open>m\<close> that \<open>validateMethod\<close> accepts. If
  the version \<open>v\<close> does not hold exactly one \<open>/\<close>, or does not start with \<open>HTTP/\<close>,
  \<open>parseRequestLine\<close> fails with \<open>ErrInvalidHttpFormat\<close>. If \<open>v\<close> is \<open>HTTP/\<close> followed by
  a version without \<open>/\<close> other than \<open>1.1\<close>, it fails with \<open>ErrUnsupportedHttpVer\<close>. The
  two errors are different values.
\<close>

theorem version_error_taxonomy:
  assumes "Index (m @ '' '' @ t @ '' '' @ v) CRLF = None"
    and "CHR '' '' \<notin> set m" and "CHR '' '' \<notin> set t" and "CHR '' '' \<notin> set v"
    and "validateMethod m = None"
  shows "(count_list v (CHR ''/'') \<noteq> 1 \<or> \<not> prefix ''HTTP/'' v
            \<longrightarrow> parseRequestLine ((m @ '' '' @ t @ '' '' @ v) @ CRLF @ rest)
                  = Inl ErrInvalidHttpFormat)
       \<and> (\<forall>ver. v = ''HTTP/'' @ ver \<and> CHR ''/'' \<notin> set ver \<and> ver \<noteq> ''1.1''
            \<longrightarrow> parseRequestLine ((m @ '' '' @ t @ '' '' @ v) @ CRLF @ rest)
                  = Inl ErrUnsupportedHttpVer)
       \<and> ErrInvalidHttpFormat \<noteq> ErrUnsupportedHttpVer"
  using parseRequestLine_version_error [OF assms] validateHttpVersion_format [of v]
    validateHttpVersion_unsupported
  by auto

lemma no_CRLF_in_request_lines:
  "Index (''GET'' @ '' '' @ ''/coffee'' @ '' '' @ ''HTTP/1.0'') CRLF = None"
  "Index (''GET'' @ '' '' @ ''/coffee'' @ '' '' @ ''HTP/1.1'') CRLF = None"
  "Index (''GET'' @ '' '' @ ''/coffee'' @ '' '' @ ''HTTP/1.1/2'') CRLF = None"
  by code_simp+

lemma validateMethod_GET: "validateMethod ''GET'' = None"
  by code_simp

theorem version_error_taxonomy_witness:
  "parseRequestLine (''GET /coffee HTTP/1.0'' @ CRLF @ ''Host: x'' @ CRLF)
     = Inl ErrUnsupportedHttpVer
   \<and> parseRequestLine (''GET /coffee HTP/1.1'' @ CRLF @ ''Host: x'' @ CRLF)
     = Inl ErrInvalidHttpFormat
   \<and> parseRequestLine (''GET /coffee HTTP/1.1/2'' @ CRLF @ ''Host: x'' @ CRLF)
     = Inl ErrInvalidHttpFormat"
  using version_error_taxonomy [of "''GET''" "''/coffee''" "''HTTP/1.0''" "''Host: x'' @ CRLF"]
    version_error_taxonomy [of "''GET''" "''/coffee''" "''HTP/1.1''" "''Host: x'' @ CRLF"]
    version_error_taxonomy [of "''GET''" "''/coffee''" "''HTTP/1.1/2''" "''Host: x'' @ CRLF"]
    no_CRLF_in_request_lines validateMethod_GET
  by simp

section \<open>Validation of the declared body length\<close>

lemma parseSingle_content_length_error:
  assumes "state r = StateBody" and "getAndValidateContentLength ul r = Inl e"
  shows "parseSingle ul r inp = ((0, Some e), r)"
  using assms by (simp add: parseSingle_def)

lemma parse_content_length_error:
  assumes "state r = StateBody" and "getAndValidateContentLength ul r = Inl e"
  shows "parse ul r inp = ((0, Some e), r)"
  using assms parseSingle_content_length_error [OF assms, of "drop 0 inp"]
  by (simp add: parse_def parse_loop.simps [of ul r inp 0])





section \<open>Field lines\<close>

lemma SplitN2_first: "sep \<notin> set a \<Longrightarrow> SplitN2 (a @ sep # b) sep = [a, b]"
proof -
  assume a: "sep \<notin> set a"
  then have "takeWhile (\<lambda>c. c \<noteq> sep) (a @ sep # b) = a"
    by (induction a) auto
  moreover from a have "dropWhile (\<lambda>c. c \<noteq> sep) (a @ sep # b) = sep # b"
    by (induction a) auto
  ultimately show ?thesis by (simp add: SplitN2_def)
qed

lemma parseHeader_space_before_colon:
  assumes "CHR '':'' \<notin> set pre"
  shows "parseHeader ul (pre @ '' :'' @ post) = Inl ErrInvalidSpacing"
proof -
  have "SplitN2 ((pre @ '' '') @ CHR '':'' # post) (CHR '':'') = [pre @ '' '', post]"
    using assms by (intro SplitN2_first) simp
  then show ?thesis by (simp add: parseHeader_def Let_def suffix_def)
qed

text \<open>
  Claim C8, amended. Take a complete field line, the bytes before the first CRLF of the
  input, in which a literal space (byte 0x20) stands immediately before the first colon.
  Then \<open>Parse\<close> returns the error \<open>ErrInvalidSpacing\<close> with 0 bytes consumed and
  \<open>done = false\<close>, and the header collection is the one it was given.
\<close>

theorem space_before_colon_rejected:
  assumes "Index inp CRLF = Some idx"
    and "take idx inp = pre @ '' :'' @ post"
    and "CHR '':'' \<notin> set pre"
  shows "Parse ul h inp = ((0, False, Some ErrInvalidSpacing), h)"
proof -
  have "idx \<noteq> 0"
  proof
    assume "idx = 0"
    with assms(2) show False by simp
  qed
  with assms(1,2) parseHeader_space_before_colon [OF assms(3), of ul post]
  show ?thesis by (simp add: Parse_def)
qed

lemma host_space_line:
  "Index (''Host : localhost:42069'' @ CRLF @ CRLF) CRLF = Some 22"
  "take 22 (''Host : localhost:42069'' @ CRLF @ CRLF) = ''Host'' @ '' :'' @ '' localhost:42069''"
  by code_simp+

theorem space_before_colon_rejected_witness:
  "Parse undefined NewHeaders (''Host : localhost:42069'' @ CRLF @ CRLF)
     = ((0, False, Some ErrInvalidSpacing), NewHeaders)"
  using space_before_colon_rejected
          [of "''Host : localhost:42069'' @ CRLF @ CRLF" 22 "''Host''" "'' localhost:42069''"
              undefined NewHeaders]
    host_space_line
  by simp

text \<open>
  A horizontal tab is whitespace and here it stands immediately before the colon, yet
  \<open>Parse\<close> accepts the line: it consumes all 10 bytes, reports no error and stores the
  value under \<open>host\<close>.
\<close>

theorem tab_before_colon_accepted:
  "fst (Parse undefined NewHeaders (''Host'' @ [CHR 0x09] @ '': x'' @ CRLF)) = (10, False, None)
   \<and> Get undefined (snd (Parse undefined NewHeaders (''Host'' @ [CHR 0x09] @ '': x'' @ CRLF)))
         ''host'' = ''x''"
  by code_simp

section \<open>Names, case and the header collection\<close>

lemma token_ascii: "isValidTokenChar c \<Longrightarrow> byte c < 128"
  by (auto simp: isValidTokenChar_def byte_def)

lemma byte_lower_byte:
  "byte (lower_byte c) = (if 65 \<le> byte c \<and> byte c \<le> 90 then byte c + 32 else byte c)"
  by (simp add: lower_byte_def byte_def)

lemma lower_byte_ascii: "byte c < 128 \<Longrightarrow> byte (lower_byte c) < 128"
  by (simp add: byte_lower_byte)

lemma lower_byte_idem: "lower_byte (lower_byte c) = lower_byte c"
proof (cases "65 \<le> byte c \<and> byte c \<le> 90")
  case True
  then have "\<not> (65 \<le> byte (lower_byte c) \<and> byte (lower_byte c) \<le> 90)"
    by (simp add: byte_lower_byte)
  then show ?thesis by (simp only: lower_byte_def [of "lower_byte c"] if_False)
next
  case False
  then have "lower_byte c = c" by (simp only: lower_byte_def if_False)
  then show ?thesis by simp
qed

lemma lower_byte_token: "isValidTokenChar c \<Longrightarrow> isValidTokenChar (lower_byte c)"
proof (cases "65 \<le> byte c \<and> byte c \<le> 90")
  case True
  then have "97 \<le> byte (lower_byte c) \<and> byte (lower_byte c) \<le> 122"
    by (simp add: byte_lower_byte)
  then show ?thesis by (simp add: isValidTokenChar_def)
next
  case False
  then have "lower_byte c = c" by (simp only: lower_byte_def if_False)
  moreover assume "isValidTokenChar c"
  ultimately show ?thesis by simp
qed

lemma ToLower_ascii: "\<forall>c \<in> set s. byte c < 128 \<Longrightarrow> ToLower ul s = map lower_byte s"
  by (simp add: ToLower_def)

lemma ToLower_idem_ascii:
  "\<forall>c \<in> set s. byte c < 128 \<Longrightarrow> ToLower ul (ToLower ul s) = ToLower ul s"
  by (simp add: ToLower_def lower_byte_ascii lower_byte_idem)

lemma Get_Set:
  assumes "ToLower ul k' = ToLower ul k"
  shows "Get ul (Set ul h k v) k'
           = (case headers h (ToLower ul k) of None \<Rightarrow> v | Some v0 \<Rightarrow> v0 @ '', '' @ v)"
  using assms by (simp add: Get_def Set_def Let_def split: option.splits)

lemma headers_Set:
  "headers (Set ul h k v) (ToLower ul k)
     = Some (case headers h (ToLower ul k) of None \<Rightarrow> v | Some v0 \<Rightarrow> v0 @ '', '' @ v)"
  by (simp add: Set_def Let_def split: option.splits)

lemma validateFieldName_tokens:
  assumes "name \<noteq> []" and "\<forall>c \<in> set name. isValidTokenChar c"
  shows "validateFieldName name = None"
proof -
  from assms(2) have "find (\<lambda>c. \<not> isValidTokenChar c) name = None"
    by (simp add: find_None_iff)
  with assms(1) show ?thesis by (simp add: validateFieldName_def)
qed

lemma parseHeader_field_line:
  assumes colon: "CHR '':'' \<notin> set name"
    and nospace: "\<not> suffix '' '' name"
    and nonempty: "TrimSpace name \<noteq> []"
    and tokens: "\<forall>c \<in> set (TrimSpace name). isValidTokenChar c"
  shows "parseHeader ul (name @ '':'' @ val)
           = Inr (map lower_byte (TrimSpace name), TrimSpace val)"
proof -
  have split: "SplitN2 (name @ CHR '':'' # val) (CHR '':'') = [name, val]"
    using colon by (rule SplitN2_first)
  from tokens have ascii: "\<forall>c \<in> set (TrimSpace name). byte c < 128"
    by (simp add: token_ascii)
  then have low: "ToLower ul (TrimSpace name) = map lower_byte (TrimSpace name)"
    by (rule ToLower_ascii)
  have "validateFieldName (map lower_byte (TrimSpace name)) = None"
    using nonempty tokens by (intro validateFieldName_tokens) (simp_all add: lower_byte_token)
  with split nospace low show ?thesis by (simp add: parseHeader_def Let_def)
qed

lemma Parse_field_line:
  assumes line: "Index (name @ '':'' @ val) CRLF = None"
    and colon: "CHR '':'' \<notin> set name"
    and nospace: "\<not> suffix '' '' name"
    and nonempty: "TrimSpace name \<noteq> []"
    and tokens: "\<forall>c \<in> set (TrimSpace name). isValidTokenChar c"
  shows "Parse ul h ((name @ '':'' @ val) @ CRLF @ rest)
           = ((length (name @ '':'' @ val) + 2, False, None),
              Set ul h (map lower_byte (TrimSpace name)) (TrimSpace val))"
proof -
  let ?line = "name @ '':'' @ val"
  have idx: "Index (?line @ CRLF @ rest) CRLF = Some (length ?line)"
    using line by (rule Index_line)
  have "parseHeader ul ?line = Inr (map lower_byte (TrimSpace name), TrimSpace val)"
    using colon nospace nonempty tokens by (rule parseHeader_field_line)
  with idx show ?thesis by (simp add: Parse_def CRLF_def)
qed

lemma Get_after_field_line:
  assumes tokens: "\<forall>c \<in> set n. isValidTokenChar c"
  shows "Get ul (Set ul h (map lower_byte n) v) (ToLower ul n)
           = (case headers h (map lower_byte n) of None \<Rightarrow> v | Some v0 \<Rightarrow> v0 @ '', '' @ v)"
proof -
  from tokens have ascii: "\<forall>c \<in> set n. byte c < 128" by (simp add: token_ascii)
  then have 1: "ToLower ul n = map lower_byte n" by (rule ToLower_ascii)
  from ascii have 2: "ToLower ul (map lower_byte n) = map lower_byte n"
    using ToLower_idem_ascii [of n ul] 1 by simp
  have "ToLower ul (ToLower ul n) = ToLower ul (map lower_byte n)" by (simp add: 1)
  from Get_Set [OF this, of h v] 2 show ?thesis by simp
qed

text \<open>
  Claim C5, amended. Take a field line \<open>name:val\<close>, complete (no CRLF inside it, CRLF
  after it), where \<open>name\<close> holds no colon and does not end in a space, and where \<open>name\<close>
  with its surrounding whitespace trimmed is a non-empty sequence of token characters. Then
  \<open>Parse\<close> consumes the length of the line plus 2, reports \<open>done = false\<close> and no error,
  and afterwards \<open>Get\<close> of the lowercased trimmed name returns the trimmed \<open>val\<close>, joined
  with a comma and a space after the value the collection held for that name, if any.
\<close>

theorem Parse_valid_field_line:
  assumes "Index (name @ '':'' @ val) CRLF = None"
    and "CHR '':'' \<notin> set name"
    and "\<not> suffix '' '' name"
    and "TrimSpace name \<noteq> []"
    and "\<forall>c \<in> set (TrimSpace name). isValidTokenChar c"
  shows "fst (Parse ul h ((name @ '':'' @ val) @ CRLF @ rest))
           = (length (name @ '':'' @ val) + 2, False, None)
       \<and> Get ul (snd (Parse ul h ((name @ '':'' @ val) @ CRLF @ rest)))
             (ToLower ul (TrimSpace name))
           = (case headers h (map lower_byte (TrimSpace name)) of
                None \<Rightarrow> TrimSpace val
              | Some v0 \<Rightarrow> v0 @ '', '' @ TrimSpace val)"
  using Parse_field_line [OF assms, of ul h rest] Get_after_field_line [OF assms(5), of ul h]
  by simp

lemma host_line_facts:
  "Index (''   Host'' @ '':'' @ ''   localhost:42069   '') CRLF = None"
  "CHR '':'' \<notin> set ''   Host''"
  "\<not> suffix '' '' ''   Host''"
  "TrimSpace ''   Host'' = ''Host''"
  "\<forall>c \<in> set ''Host''. isValidTokenChar c"
  "TrimSpace ''   localhost:42069   '' = ''localhost:42069''"
  "ToLower undefined ''Host'' = ''host''"
  "map lower_byte ''Host'' = ''host''"
  "headers NewHeaders ''host'' = None"
  by code_simp+

theorem Parse_valid_field_line_witness:
  "fst (Parse undefined NewHeaders (''   Host:   localhost:42069   '' @ CRLF @ CRLF))
     = (31, False, None)
   \<and> Get undefined
         (snd (Parse undefined NewHeaders (''   Host:   localhost:42069   '' @ CRLF @ CRLF)))
         ''host''
     = ''localhost:42069''"
  using Parse_valid_field_line
          [of "''   Host''" "''   localhost:42069   ''" undefined NewHeaders CRLF]
    host_line_facts
  by simp

text \<open>
  The name \<open>Host\<close> followed by a space: trimmed and lowercased it is \<open>host\<close>, a non-empty
  sequence of token characters, yet \<open>Parse\<close> rejects the line and consumes nothing.
\<close>

theorem trailing_space_name_rejected:
  "validateFieldName (ToLower undefined (TrimSpace ''Host '')) = None
   \<and> fst (Parse undefined NewHeaders (''Host : localhost:42069'' @ CRLF))
       = (0, False, Some ErrInvalidSpacing)"
  by code_simp

section \<open>Setting a name twice\<close>

text \<open>
  Two bytes are the same letter in either case when they are equal or when one is an
  ASCII capital and the other is the small letter 32 above it; two names are case
  variants of each other when they agree byte by byte in this sense.
\<close>

definition same_letter :: "char \<Rightarrow> char \<Rightarrow> bool" where
  "same_letter a b \<longleftrightarrow>
     a = b \<or> (65 \<le> byte a \<and> byte a \<le> 90 \<and> byte b = byte a + 32)
           \<or> (65 \<le> byte b \<and> byte b \<le> 90 \<and> byte a = byte b + 32)"

definition case_variant :: "string \<Rightarrow> string \<Rightarrow> bool" where
  "case_variant a b \<longleftrightarrow> list_all2 same_letter a b"

lemma space_runes_ends:
  "\<forall>q \<in> set space_runes. q \<noteq> [] \<and> \<not> isValidTokenChar (hd q) \<and> \<not> isValidTokenChar (last q)"
  by code_simp

lemma leading_space_token:
  assumes "isValidTokenChar x"
  shows "leading_space (x # xs) = 0"
proof -
  have "\<not> prefix q (x # xs)" if q: "q \<in> set space_runes" for q
  proof
    assume p: "prefix q (x # xs)"
    from q space_runes_ends have ne: "q \<noteq> []" and nt: "\<not> isValidTokenChar (hd q)" by auto
    from ne p have "hd q = x" by (cases q) auto
    with nt assms show False by simp
  qed
  then have "find (\<lambda>q. prefix q (x # xs)) space_runes = None"
    by (simp add: find_None_iff)
  then show ?thesis by (simp add: leading_space_def)
qed

lemma trailing_space_token:
  assumes "isValidTokenChar x"
  shows "trailing_space (xs @ [x]) = 0"
proof -
  have "\<not> suffix q (xs @ [x])" if q: "q \<in> set space_runes" for q
  proof
    assume p: "suffix q (xs @ [x])"
    from q space_runes_ends have ne: "q \<noteq> []" and nt: "\<not> isValidTokenChar (last q)" by auto
    from p obtain zs where "xs @ [x] = zs @ q" by (auto simp: suffix_def)
    with ne have "last q = x" by (metis last_appendR last_snoc)
    with nt assms show False by simp
  qed
  then have "find (\<lambda>q. suffix q (xs @ [x])) space_runes = None"
    by (simp add: find_None_iff)
  then show ?thesis by (simp add: trailing_space_def)
qed

lemma TrimSpace_tokens:
  assumes "n \<noteq> []" and "\<forall>c \<in> set n. isValidTokenChar c"
  shows "TrimSpace n = n"
proof -
  from assms(1) obtain x xs where c: "n = x # xs" by (cases n) auto
  from assms(1) obtain ys y where s: "n = ys @ [y]" by (cases n rule: rev_cases) auto
  from c assms(2) have "isValidTokenChar x" by simp
  then have l: "leading_space n = 0" unfolding c by (rule leading_space_token)
  from s assms(2) have "isValidTokenChar y" by simp
  then have t: "trailing_space n = 0" unfolding s by (rule trailing_space_token)
  from l t show ?thesis
    by (simp add: TrimSpace_def TrimLeft.simps [of n] TrimRight.simps [of n])
qed

lemma token_no_colon_space: "isValidTokenChar c \<Longrightarrow> c \<noteq> CHR '':'' \<and> c \<noteq> CHR '' ''"
proof -
  have "\<not> isValidTokenChar (CHR '':'')" "\<not> isValidTokenChar (CHR '' '')" by code_simp+
  then show "isValidTokenChar c \<Longrightarrow> c \<noteq> CHR '':'' \<and> c \<noteq> CHR '' ''" by auto
qed


lemma lower_byte_upper:
  assumes "65 \<le> byte a \<and> byte a \<le> 90" and "byte b = byte a + 32"
  shows "lower_byte a = b" and "lower_byte b = b"
proof -
  from assms have "lower_byte a = char_of (byte b)" by (simp add: lower_byte_def)
  then show "lower_byte a = b" by (simp add: byte_def)
  from assms have "\<not> (65 \<le> byte b \<and> byte b \<le> 90)" by simp
  then show "lower_byte b = b" by (simp only: lower_byte_def if_False)
qed

lemma same_letter_lower:
  assumes "same_letter a b"
  shows "lower_byte a = lower_byte b"
proof -
  from assms consider "a = b" | "65 \<le> byte a \<and> byte a \<le> 90 \<and> byte b = byte a + 32"
    | "65 \<le> byte b \<and> byte b \<le> 90 \<and> byte a = byte b + 32"
    unfolding same_letter_def by blast
  then show ?thesis
  proof cases
    case 1
    then show ?thesis by simp
  next
    case 2
    then have "lower_byte a = b" and "lower_byte b = b"
      using lower_byte_upper [of a b] by blast+
    then show ?thesis by simp
  next
    case 3
    then have "lower_byte b = a" and "lower_byte a = a"
      using lower_byte_upper [of b a] by blast+
    then show ?thesis by simp
  qed
qed

lemma case_variant_lower: "case_variant a b \<Longrightarrow> map lower_byte a = map lower_byte b"
  unfolding case_variant_def by (induction rule: list_all2_induct) (auto dest: same_letter_lower)

lemma same_letter_token:
  assumes "same_letter a b" and "isValidTokenChar a"
  shows "isValidTokenChar b"
proof -
  from assms(1) consider "a = b" | "65 \<le> byte a \<and> byte a \<le> 90 \<and> byte b = byte a + 32"
    | "65 \<le> byte b \<and> byte b \<le> 90"
    unfolding same_letter_def by blast
  then show ?thesis
  proof cases
    case 1
    with assms(2) show ?thesis by simp
  next
    case 2
    then have "97 \<le> byte b \<and> byte b \<le> 122" by simp
    then show ?thesis by (simp add: isValidTokenChar_def)
  next
    case 3
    then show ?thesis by (simp add: isValidTokenChar_def)
  qed
qed

lemma case_variant_tokens:
  "case_variant a b \<Longrightarrow> \<forall>c \<in> set a. isValidTokenChar c \<Longrightarrow> \<forall>c \<in> set b. isValidTokenChar c"
  unfolding case_variant_def
  by (induction rule: list_all2_induct) (auto dest: same_letter_token)

lemma case_variant_nonempty: "case_variant a b \<Longrightarrow> a \<noteq> [] \<Longrightarrow> b \<noteq> []"
  unfolding case_variant_def by (auto simp: list_all2_Nil2)

lemma ToLower_tokens:
  "\<forall>c \<in> set n. isValidTokenChar c \<Longrightarrow> ToLower ul n = map lower_byte n"
  by (intro ToLower_ascii) (simp add: token_ascii)

lemma ToLower_lowered_tokens:
  assumes "\<forall>c \<in> set n. isValidTokenChar c"
  shows "ToLower ul (map lower_byte n) = map lower_byte n"
  using ToLower_idem_ascii [of n ul] ToLower_tokens [OF assms, of ul] assms
  by (simp add: token_ascii)

lemma Set_twice_Get:
  assumes fresh: "headers h k = None"
    and k1: "ToLower ul a = k" and k2: "ToLower ul b = k" and k3: "ToLower ul c = k"
  shows "Get ul (Set ul (Set ul h a v1) b v2) c = v1 @ '', '' @ v2"
  using assms by (simp add: Get_def Set_def Let_def)

lemma token_line_facts:
  assumes "n \<noteq> []" and "\<forall>c \<in> set n. isValidTokenChar c"
  shows "CHR '':'' \<notin> set n" and "\<not> suffix '' '' n" and "TrimSpace n = n"
proof -
  show "CHR '':'' \<notin> set n" using assms(2) token_no_colon_space by blast
  from assms(1) obtain ys y where s: "n = ys @ [y]" by (cases n rule: rev_cases) auto
  with assms(2) have "y \<noteq> CHR '' ''" using token_no_colon_space by auto
  with s show "\<not> suffix '' '' n" by (auto simp: suffix_def)
  show "TrimSpace n = n" using assms by (rule TrimSpace_tokens)
qed

lemma Parse_token_line:
  assumes "Index (n @ '':'' @ v) CRLF = None"
    and "n \<noteq> []" and "\<forall>c \<in> set n. isValidTokenChar c"
  shows "Parse ul h ((n @ '':'' @ v) @ CRLF @ rest)
           = ((length (n @ '':'' @ v) + 2, False, None),
              Set ul h (map lower_byte n) (TrimSpace v))"
  using Parse_field_line [of n v ul h rest] token_line_facts [OF assms(2,3)] assms
  by simp

text \<open>
  Claim C6. Let \<open>n1\<close> be a non-empty name of token characters that the collection \<open>h\<close>
  does not hold yet, and let \<open>n2\<close> and \<open>n3\<close> be case variants of it. Setting \<open>n1\<close> to
  \<open>v1\<close> and then \<open>n2\<close> to \<open>v2\<close> makes \<open>Get\<close> of \<open>n3\<close> return \<open>v1\<close>, a comma, a space
  and \<open>v2\<close>: the first value is kept and the lookup does not depend on case. The same holds
  when the two values arrive as two complete field lines \<open>n1:v1\<close> and \<open>n2:v2\<close> parsed one
  after the other, the second \<open>Parse\<close> starting where the first one stopped; the values
  are then stored trimmed.
\<close>

theorem same_name_twice_joined:
  assumes "n1 \<noteq> []" and "\<forall>c \<in> set n1. isValidTokenChar c"
    and "case_variant n1 n2" and "case_variant n1 n3"
    and "headers h (map lower_byte n1) = None"
  shows "Get ul (Set ul (Set ul h n1 v1) n2 v2) n3 = v1 @ '', '' @ v2
       \<and> (Index (n1 @ '':'' @ v1) CRLF = None \<and> Index (n2 @ '':'' @ v2) CRLF = None \<longrightarrow>
            (let inp = (n1 @ '':'' @ v1) @ CRLF @ (n2 @ '':'' @ v2) @ CRLF @ rest;
                 first = Parse ul h inp;
                 second = Parse ul (snd first) (drop (fst (fst first)) inp)
             in fst first = (length (n1 @ '':'' @ v1) + 2, False, None)
              \<and> fst second = (length (n2 @ '':'' @ v2) + 2, False, None)
              \<and> Get ul (snd second) n3 = TrimSpace v1 @ '', '' @ TrimSpace v2))"
proof -
  have t2: "\<forall>c \<in> set n2. isValidTokenChar c" and t3: "\<forall>c \<in> set n3. isValidTokenChar c"
    using assms(2,3,4) by (auto dest: case_variant_tokens)
  have ne2: "n2 \<noteq> []" using assms(1,3) by (rule case_variant_nonempty [rotated])
  let ?k = "map lower_byte n1"
  have k1: "ToLower ul n1 = ?k" using assms(2) by (rule ToLower_tokens)
  have k2: "ToLower ul n2 = ?k"
    using ToLower_tokens [OF t2, of ul] case_variant_lower [OF assms(3)] by simp
  have k3: "ToLower ul n3 = ?k"
    using ToLower_tokens [OF t3, of ul] case_variant_lower [OF assms(4)] by simp
  have l1: "ToLower ul (map lower_byte n1) = ?k" using assms(2) by (rule ToLower_lowered_tokens)
  have l2: "ToLower ul (map lower_byte n2) = ?k"
    using ToLower_lowered_tokens [OF t2, of ul] case_variant_lower [OF assms(3)] by simp
  have sets: "Get ul (Set ul (Set ul h n1 v1) n2 v2) n3 = v1 @ '', '' @ v2"
    using assms(5) k1 k2 k3 by (rule Set_twice_Get)
  have lines: "let inp = (n1 @ '':'' @ v1) @ CRLF @ (n2 @ '':'' @ v2) @ CRLF @ rest;
                 first = Parse ul h inp;
                 second = Parse ul (snd first) (drop (fst (fst first)) inp)
             in fst first = (length (n1 @ '':'' @ v1) + 2, False, None)
              \<and> fst second = (length (n2 @ '':'' @ v2) + 2, False, None)
              \<and> Get ul (snd second) n3 = TrimSpace v1 @ '', '' @ TrimSpace v2"
    if c1: "Index (n1 @ '':'' @ v1) CRLF = None" and c2: "Index (n2 @ '':'' @ v2) CRLF = None"
  proof -
    let ?l1 = "n1 @ '':'' @ v1" and ?l2 = "n2 @ '':'' @ v2"
    let ?inp = "?l1 @ CRLF @ ?l2 @ CRLF @ rest"
    have p1: "Parse ul h ?inp
                = ((length ?l1 + 2, False, None), Set ul h (map lower_byte n1) (TrimSpace v1))"
      using c1 assms(1,2) by (rule Parse_token_line)
    have e: "?inp = (?l1 @ CRLF) @ (?l2 @ CRLF @ rest)" by simp
    have len: "length ?l1 + 2 = length (?l1 @ CRLF)" by (simp add: CRLF_def)
    from e len have d: "drop (length ?l1 + 2) ?inp = ?l2 @ CRLF @ rest"
      by (metis append_eq_conv_conj)
    have p2: "Parse ul (Set ul h (map lower_byte n1) (TrimSpace v1)) (?l2 @ CRLF @ rest)
                = ((length ?l2 + 2, False, None),
                   Set ul (Set ul h (map lower_byte n1) (TrimSpace v1))
                     (map lower_byte n2) (TrimSpace v2))"
      using c2 ne2 t2 by (rule Parse_token_line)
    have g: "Get ul (Set ul (Set ul h (map lower_byte n1) (TrimSpace v1))
                     (map lower_byte n2) (TrimSpace v2)) n3
               = TrimSpace v1 @ '', '' @ TrimSpace v2"
      using assms(5) l1 l2 k3 by (rule Set_twice_Get)
    show ?thesis
      unfolding Let_def p1 fst_conv snd_conv d p2 using g by simp
  qed
  from sets lines show ?thesis by blast
qed

lemma host_variants:
  "''Host'' \<noteq> []"
  "\<forall>c \<in> set ''Host''. isValidTokenChar c"
  "case_variant ''Host'' ''HOST''"
  "case_variant ''Host'' ''hOsT''"
  "headers NewHeaders (map lower_byte ''Host'') = None"
  "Index (''Host'' @ '':'' @ '' a.example '') CRLF = None"
  "Index (''HOST'' @ '':'' @ '' b.example'') CRLF = None"
  "TrimSpace '' a.example '' = ''a.example''"
  "TrimSpace '' b.example'' = ''b.example''"
  by code_simp+

theorem same_name_twice_joined_witness:
  "Get undefined (Set undefined (Set undefined NewHeaders ''Host'' ''a.example'')
        ''HOST'' ''b.example'') ''hOsT''
     = ''a.example, b.example''
   \<and> Get undefined
        (snd (Parse undefined
                (snd (Parse undefined NewHeaders
                        ((''Host'' @ '':'' @ '' a.example '') @ CRLF
                           @ (''HOST'' @ '':'' @ '' b.example'') @ CRLF @ CRLF)))
                (drop 18 ((''Host'' @ '':'' @ '' a.example '') @ CRLF
                           @ (''HOST'' @ '':'' @ '' b.example'') @ CRLF @ CRLF))))
        ''hOsT''
     = ''a.example, b.example''"
proof -
  note hv = host_variants
  let ?inp = "(''Host'' @ '':'' @ '' a.example '') @ CRLF
                @ (''HOST'' @ '':'' @ '' b.example'') @ CRLF @ CRLF"
  let ?first = "Parse undefined NewHeaders ?inp"
  have "Get undefined (Set undefined (Set undefined NewHeaders ''Host'' ''a.example'')
          ''HOST'' ''b.example'') ''hOsT'' = ''a.example'' @ '', '' @ ''b.example''"
    using same_name_twice_joined
            [OF hv(1) hv(2) hv(3) hv(4) hv(5), of undefined "''a.example''" "''b.example''" CRLF]
    by blast
  then have sets: "Get undefined (Set undefined (Set undefined NewHeaders ''Host'' ''a.example'')
          ''HOST'' ''b.example'') ''hOsT'' = ''a.example, b.example''"
    by simp
  have both: "fst ?first = (length (''Host'' @ '':'' @ '' a.example '') + 2, False, None)
         \<and> fst (Parse undefined (snd ?first) (drop (fst (fst ?first)) ?inp))
             = (length (''HOST'' @ '':'' @ '' b.example'') + 2, False, None)
         \<and> Get undefined (snd (Parse undefined (snd ?first) (drop (fst (fst ?first)) ?inp)))
               ''hOsT''
             = TrimSpace '' a.example '' @ '', '' @ TrimSpace '' b.example''"
    using same_name_twice_joined
            [OF hv(1) hv(2) hv(3) hv(4) hv(5), of undefined "'' a.example ''" "'' b.example''" CRLF]
      hv(6) hv(7)
    unfolding Let_def by blast
  from both have "fst (fst ?first) = length (''Host'' @ '':'' @ '' a.example '') + 2"
    by (simp only: fst_conv)
  then have n: "fst (fst ?first) = 18" by simp
  from both have "Get undefined (snd (Parse undefined (snd ?first) (drop (fst (fst ?first)) ?inp)))
               ''hOsT''
             = TrimSpace '' a.example '' @ '', '' @ TrimSpace '' b.example''"
    by blast
  then have "Get undefined (snd (Parse undefined (snd ?first) (drop 18 ?inp))) ''hOsT''
             = ''a.example'' @ '', '' @ ''b.example''"
    unfolding n hv(8) hv(9) .
  then have lines: "Get undefined (snd (Parse undefined (snd ?first) (drop 18 ?inp))) ''hOsT''
             = ''a.example, b.example''"
    by (simp only: append.simps)
  from sets lines show ?thesis by (rule conjI)
qed

section \<open>The body of a request that declares no body\<close>

text \<open>
  What every run of the parser keeps true of the body: it is never a slice that has
  storage and no bytes; it is nil until the headers are complete; and it is nil whenever
  the headers declare a body of length 0 (no \<open>content-length\<close> value, or one that parses
  to 0).
\<close>

definition body_inv :: "unicode_lower \<Rightarrow> Request \<Rightarrow> bool" where
  "body_inv ul r \<longleftrightarrow>
     Body r \<noteq> Some []
     \<and> (state r = StateInitialized \<or> state r = StateHeaders \<longrightarrow> Body r = None)
     \<and> (getAndValidateContentLength ul r = Inr 0 \<longrightarrow> Body r = None)"

definition returned_body :: "(error + Request) option \<Rightarrow> string option option" where
  "returned_body res = (case res of Some (Inr r) \<Rightarrow> Some (Body r) | _ \<Rightarrow> None)"

definition zero_length_request :: "(error + Request) option" where
  "zero_length_request =
     RequestFromReader undefined chunkReader_Read
       \<lparr>data = ''POST /submit HTTP/1.1'' @ CRLF @ ''Content-Length: 0'' @ CRLF @ CRLF,
        numBytesPerRead = 8, pos = 0\<rparr>"

lemma body_inv_NewRequest: "body_inv ul NewRequest"
  by (simp add: body_inv_def NewRequest_def)

lemma getAndValidateContentLength_Headers:
  "Headers r' = Headers r \<Longrightarrow>
     getAndValidateContentLength ul r' = getAndValidateContentLength ul r"
  by (simp add: getAndValidateContentLength_def)

lemma append_slice_not_empty: "s \<noteq> Some [] \<Longrightarrow> append_slice s bs \<noteq> Some []"
  by (simp add: append_slice_def)

lemma body_inv_nil: "Body r = None \<Longrightarrow> body_inv ul r"
  by (simp add: body_inv_def)

lemma parseSingle_line_states_Body:
  assumes "state r = StateInitialized \<or> state r = StateHeaders"
    and "parseSingle ul r inp = (res, r')"
  shows "Body r' = Body r"
proof -
  from assms(1) show ?thesis
  proof
    assume "state r = StateInitialized"
    with assms(2) show ?thesis
      by (cases "parseRequestLine inp")
         (auto simp: parseSingle_def split: option.splits if_splits)
  next
    assume st: "state r = StateHeaders"
    obtain n d e h where "Parse ul (Headers r) inp = ((n, d, e), h)"
      by (metis surj_pair)
    with st assms(2) show ?thesis
      by (cases e) (auto simp: parseSingle_def split: if_splits)
  qed
qed

lemma parseSingle_body_inv:
  assumes "body_inv ul r" and "parseSingle ul r inp = (res, r')"
  shows "body_inv ul r'"
proof (cases "state r")
  case StateInitialized
  with assms have "Body r' = None"
    using parseSingle_line_states_Body [of r ul inp res r'] by (simp add: body_inv_def)
  then show ?thesis by (rule body_inv_nil)
next
  case StateHeaders
  with assms have "Body r' = None"
    using parseSingle_line_states_Body [of r ul inp res r'] by (simp add: body_inv_def)
  then show ?thesis by (rule body_inv_nil)
next
  case StateBody
  show ?thesis
  proof (cases "getAndValidateContentLength ul r")
    case (Inl e)
    with StateBody assms show ?thesis by (simp add: parseSingle_def)
  next
    case (Inr n)
    show ?thesis
    proof (cases "n = 0")
      case True
      with Inr StateBody assms have r': "r' = r\<lparr>state := StateDone\<rparr>"
        by (simp add: parseSingle_def)
      have "getAndValidateContentLength ul r' = getAndValidateContentLength ul r"
        unfolding r' by (rule getAndValidateContentLength_Headers) simp
      with assms(1) Inr True show ?thesis by (simp add: body_inv_def r')
    next
      case False
      from assms(2) have r': "r' = snd (parseSingle ul r inp)" by simp
      have ps: "parseSingle ul r inp =
          (let r1 = r\<lparr>Body := append_slice (Body r) inp\<rparr>
           in if int (len_slice (Body r1)) > n
              then ((0, Some ErrBodyExceedsContentLength), r1)
              else if int (len_slice (Body r1)) = n
              then ((length inp, None), r1\<lparr>state := StateDone\<rparr>)
              else ((length inp, None), r1))"
        using StateBody Inr False by (simp add: parseSingle_def)
      have h: "Headers r' = Headers r"
        unfolding r' ps by (simp add: Let_def)
      have b: "Body r' = append_slice (Body r) inp"
        unfolding r' ps by (simp add: Let_def)
      have s: "state r' = StateBody \<or> state r' = StateDone"
        unfolding r' ps using StateBody by (simp add: Let_def)
      have "getAndValidateContentLength ul r' = Inr n"
        using Inr getAndValidateContentLength_Headers [OF h, of ul] by simp
      moreover from assms(1) have "Body r' \<noteq> Some []"
        unfolding b by (intro append_slice_not_empty) (simp add: body_inv_def)
      ultimately show ?thesis using False s by (auto simp: body_inv_def)
    qed
  qed
next
  case StateDone
  with assms show ?thesis by (simp add: parseSingle_def)
qed

lemma parse_loop_body_inv: "body_inv ul r \<Longrightarrow> body_inv ul (snd (parse_loop ul r inp tot))"
proof (induction ul r inp tot rule: parse_loop.induct)
  case (1 ul r inp tot)
  show ?case
  proof (cases "state r = StateDone")
    case True
    with "1.prems" show ?thesis by (simp add: parse_loop.simps [of ul r inp tot])
  next
    case False
    obtain n e r' where ps: "parseSingle ul r (drop tot inp) = ((n, e), r')"
      by (metis surj_pair)
    from "1.prems" ps have inv': "body_inv ul r'" by (rule parseSingle_body_inv)
    show ?thesis
    proof (cases "e = None \<and> n \<noteq> 0")
      case True
      then have "body_inv ul (snd (parse_loop ul r' inp (tot + n)))"
        using "1.IH" [of "(n, e)" r' n e] False ps inv' by simp
      with True False ps show ?thesis by (simp add: parse_loop.simps [of ul r inp tot])
    next
      case stop: False
      with False ps inv' show ?thesis
        by (cases e) (auto simp: parse_loop.simps [of ul r inp tot])
    qed
  qed
qed

lemma parse_body_inv:
  "body_inv ul r \<Longrightarrow> parse ul r inp = (res, r') \<Longrightarrow> body_inv ul r'"
  using parse_loop_body_inv [of ul r inp 0] by (simp add: parse_def)

lemma read_loop_body_inv:
  assumes "read_loop ul rd s req pending cap = Some y"
  shows "body_inv ul req \<longrightarrow> (\<forall>r. y = Inr r \<longrightarrow> body_inv ul r)"
proof (rule read_loop.raw_induct
    [where P = "\<lambda>ul rd s req pending cap y.
                  body_inv ul req \<longrightarrow> (\<forall>r. y = Inr r \<longrightarrow> body_inv ul r)",
     OF _ assms])
  fix f :: "unicode_lower \<Rightarrow> 'a reader \<Rightarrow> 'a \<Rightarrow> Request \<Rightarrow> string \<Rightarrow> nat
            \<Rightarrow> (error + Request) option"
  fix ul rd s req pending cap y
  assume IH: "\<And>ul rd s req pending cap y. f ul rd s req pending cap = Some y \<Longrightarrow>
                body_inv ul req \<longrightarrow> (\<forall>r. y = Inr r \<longrightarrow> body_inv ul r)"
  assume body: "(if state req = StateDone then Some (Inr req)
      else let cap = if cap \<le> length pending then cap * 2 else cap
           in case rd s (cap - length pending) of
              ((bs, None), s') \<Rightarrow>
                let filled = pending @ bs
                in case parse ul req filled of
                   ((bytesConsumed, None), req') \<Rightarrow>
                     f ul rd s' req' (drop bytesConsumed filled) cap
                   | ((bytesConsumed, Some err), req') \<Rightarrow> Some (Inl err)
              | ((bs, Some err), s') \<Rightarrow>
                  if err = EOF then Some (Inr req) else Some (Inl err)) =
     Some y"
  show "body_inv ul req \<longrightarrow> (\<forall>r. y = Inr r \<longrightarrow> body_inv ul r)"
  proof (cases "state req = StateDone")
    case True
    with body show ?thesis by auto
  next
    case False
    let ?cap = "if cap \<le> length pending then cap * 2 else cap"
    obtain bs e s' where rd: "rd s (?cap - length pending) = ((bs, e), s')"
      by (metis surj_pair)
    show ?thesis
    proof (cases e)
      case (Some err)
      with body False rd show ?thesis by (auto simp: Let_def split: if_splits)
    next
      case None
      obtain k pe req' where p: "parse ul req (pending @ bs) = ((k, pe), req')"
        by (metis surj_pair)
      show ?thesis
      proof (cases pe)
        case (Some err)
        with body False rd None p show ?thesis by (auto simp: Let_def)
      next
        case pn: None
        with body False rd None p
        have "f ul rd s' req' (drop k (pending @ bs)) ?cap = Some y"
          by (simp add: Let_def)
        then have "body_inv ul req' \<longrightarrow> (\<forall>r. y = Inr r \<longrightarrow> body_inv ul r)"
          by (rule IH)
        moreover have "body_inv ul req \<longrightarrow> body_inv ul req'"
          using p parse_body_inv by blast
        ultimately show ?thesis by blast
      qed
    qed
  qed
qed

lemma content_length_zero:
  assumes "Get ul (Headers r) ''content-length'' = [] \<or> Get ul (Headers r) ''content-length'' = ''0''"
  shows "getAndValidateContentLength ul r = Inr 0"
proof -
  have "ParseInt ''0'' = Some 0" by code_simp
  with assms show ?thesis by (auto simp: getAndValidateContentLength_def MaxContentLength_def)
qed

text \<open>
  Claim C2, amended. Whenever \<open>RequestFromReader\<close> returns a request, from any reader,
  its body is never a slice with storage and no bytes; and when the headers of the
  returned request hold no \<open>content-length\<close> value or hold the value \<open>0\<close>, the body is
  nil. A request with \<open>Content-Length: 0\<close> and a request without the header both come back
  with a nil body: the body does not tell them apart.
\<close>

theorem zero_length_body_is_nil:
  assumes "RequestFromReader ul rd s = Some (Inr r)"
  shows "Body r \<noteq> Some []
       \<and> (Get ul (Headers r) ''content-length'' = []
            \<or> Get ul (Headers r) ''content-length'' = ''0'' \<longrightarrow> Body r = None)"
proof -
  from assms have "body_inv ul r"
    using read_loop_body_inv [of ul rd s NewRequest "[]" bufferSize "Inr r"] body_inv_NewRequest
    by (simp add: RequestFromReader_def)
  then show ?thesis using content_length_zero [of ul r] by (auto simp: body_inv_def)
qed


lemma zero_length_request_returns:
  "(case zero_length_request of
      Some (Inr r) \<Rightarrow> Get undefined (Headers r) ''content-length'' = ''0'' \<and> state r = StateDone
    | _ \<Rightarrow> False)"
  by code_simp

theorem zero_length_body_is_nil_witness:
  "returned_body zero_length_request = Some None"
proof -
  from zero_length_request_returns obtain r
    where r: "zero_length_request = Some (Inr r)"
      and cl: "Get undefined (Headers r) ''content-length'' = ''0''"
    by (auto split: option.splits sum.splits)
  from r have "RequestFromReader undefined chunkReader_Read
       \<lparr>data = ''POST /submit HTTP/1.1'' @ CRLF @ ''Content-Length: 0'' @ CRLF @ CRLF,
        numBytesPerRead = 8, pos = 0\<rparr> = Some (Inr r)"
    by (simp only: zero_length_request_def)
  from zero_length_body_is_nil [OF this] cl have "Body r = None" by blast
  then show ?thesis unfolding returned_body_def r by simp
qed

text \<open>
  The two requests of the tests, read 16 bytes at a time: with \<open>Content-Length: 0\<close> the
  returned body is nil, not an empty slice with storage, and it is the same nil body that
  the request without the header returns.
\<close>

theorem content_length_zero_body_nil:
  "returned_body
     (RequestFromReader undefined chunkReader_Read
        \<lparr>data = ''POST /submit HTTP/1.1'' @ CRLF @ ''Host: localhost:42069'' @ CRLF
                  @ ''Content-Length: 0'' @ CRLF @ CRLF,
         numBytesPerRead = 16, pos = 0\<rparr>) = Some None
   \<and> returned_body
     (RequestFromReader undefined chunkReader_Read
        \<lparr>data = ''GET / HTTP/1.1'' @ CRLF @ ''Host: localhost:42069'' @ CRLF @ CRLF,
         numBytesPerRead = 16, pos = 0\<rparr>) = Some None"
  by code_simp

section \<open>Parsing in pieces\<close>

text \<open>
  The count that \<open>parse\<close> returns from offset \<open>t\<close> is \<open>t\<close> plus the count of a fresh run on
  \<^verbatim>\<open>data[t:]\<close>; so \<open>parse\<close> is one step of \<open>parseSingle\<close> followed by \<open>parse\<close> on what that
  step left.
\<close>

lemma parse_loop_shift:
  "parse_loop ul r d t = apfst (apfst ((+) t)) (parse_loop ul r (drop t d) 0)"
proof (induction "length d - t" arbitrary: r d t rule: less_induct)
  case less
  show ?case
  proof (cases "state r = StateDone")
    case True
    then show ?thesis
      by (simp add: parse_loop.simps [of ul r d t] parse_loop.simps [of ul r "drop t d" 0])
  next
    case False
    obtain n e r' where ps: "parseSingle ul r (drop t d) = ((n, e), r')"
      by (metis surj_pair)
    show ?thesis
    proof (cases "e = None \<and> n \<noteq> 0")
      case stop: False
      with False ps show ?thesis
        by (cases e)
           (auto simp: parse_loop.simps [of ul r d t] parse_loop.simps [of ul r "drop t d" 0])
    next
      case True
      from ps have le: "n \<le> length (drop t d)" by (rule parseSingle_consumed_le)
      from True have pos: "0 < n" by simp
      from le have le': "n \<le> length d - t" by simp
      from pos le' have m1: "length d - (t + n) < length d - t" by arith
      from pos le' have m2: "length (drop t d) - n < length d - t" by simp
      have "parse_loop ul r' d (t + n)
                 = apfst (apfst ((+) (t + n))) (parse_loop ul r' (drop (t + n) d) 0)"
        using m1 by (rule less)
      then have 1: "parse_loop ul r' d (t + n)
                 = apfst (apfst ((+) (t + n))) (parse_loop ul r' (drop (n + t) d) 0)"
        by (simp only: add.commute [of t n])
      have "parse_loop ul r' (drop t d) n
                 = apfst (apfst ((+) n)) (parse_loop ul r' (drop n (drop t d)) 0)"
        using m2 by (rule less)
      then have 2: "parse_loop ul r' (drop t d) n
                 = apfst (apfst ((+) n)) (parse_loop ul r' (drop (n + t) d) 0)"
        by (simp only: drop_drop)
      obtain m e' r'' where rest: "parse_loop ul r' (drop (n + t) d) 0 = ((m, e'), r'')"
        by (metis surj_pair)
      from True False ps show ?thesis
        by (simp add: parse_loop.simps [of ul r d t] parse_loop.simps [of ul r "drop t d" 0]
            1 2 rest)
    qed
  qed
qed

lemma parse_Done: "state r = StateDone \<Longrightarrow> parse ul r d = ((0, None), r)"
  by (simp add: parse_def parse_loop.simps [of ul r d 0])

lemma parse_error:
  "state r \<noteq> StateDone \<Longrightarrow> parseSingle ul r d = ((n, Some e), r') \<Longrightarrow>
     parse ul r d = ((0, Some e), r')"
  by (simp add: parse_def parse_loop.simps [of ul r d 0])

lemma parse_stop:
  "state r \<noteq> StateDone \<Longrightarrow> parseSingle ul r d = ((0, None), r') \<Longrightarrow>
     parse ul r d = ((0, None), r')"
  by (simp add: parse_def parse_loop.simps [of ul r d 0])

lemma parse_go:
  "state r \<noteq> StateDone \<Longrightarrow> parseSingle ul r d = ((n, None), r') \<Longrightarrow> n \<noteq> 0 \<Longrightarrow>
     parse ul r d = apfst (apfst ((+) n)) (parse ul r' (drop n d))"
  using parse_loop_shift [of ul r' d n]
  by (simp add: parse_def parse_loop.simps [of ul r d 0])


text \<open>
  In the two states that read lines, a step looks at the input up to its first CRLF
  only: with no CRLF it waits, and with one it does not depend on the bytes that follow.
\<close>

lemma parseRequestLine_append:
  assumes "Index a CRLF = Some i"
  shows "parseRequestLine (a @ b) = parseRequestLine a"
proof -
  from assms have "i + length CRLF \<le> length a" by (rule Index_le)
  then have "take i (a @ b) = take i a" by simp
  moreover from assms have "Index (a @ b) CRLF = Some i" by (rule Index_append_Some)
  ultimately show ?thesis using assms by (simp add: parseRequestLine_def del: take_append)
qed

lemma Parse_append:
  assumes "Index a CRLF = Some i"
  shows "Parse ul h (a @ b) = Parse ul h a"
proof -
  from assms have "i + length CRLF \<le> length a" by (rule Index_le)
  then have "take i (a @ b) = take i a" by simp
  moreover from assms have "Index (a @ b) CRLF = Some i" by (rule Index_append_Some)
  ultimately show ?thesis using assms by (simp add: Parse_def del: take_append)
qed

lemma parseSingle_line_append:
  assumes "state r = StateInitialized \<or> state r = StateHeaders"
    and "Index a CRLF = Some i"
  shows "parseSingle ul r (a @ b) = parseSingle ul r a"
  using assms(1) parseRequestLine_append [OF assms(2), of b]
    Parse_append [OF assms(2), of ul "Headers r" b]
  by (auto simp: parseSingle_def)

lemma parseSingle_line_wait:
  assumes "state r = StateInitialized \<or> state r = StateHeaders"
    and "Index a CRLF = None"
  shows "parseSingle ul r a = ((0, None), r)"
  using assms by (auto simp: parseSingle_def parseRequestLine_def Parse_def)

lemma parseSingle_line_progress:
  assumes "state r = StateInitialized \<or> state r = StateHeaders"
    and "Index a CRLF = Some i"
    and "parseSingle ul r a = ((n, None), r')"
  shows "n = i + 2"
proof -
  from assms(1) show ?thesis
  proof
    assume st: "state r = StateInitialized"
    show ?thesis
    proof (cases "parseRequestLine a")
      case (Inl e)
      with st assms(3) show ?thesis by (simp add: parseSingle_def)
    next
      case (Inr x)
      with assms(2) obtain rl where "x = Some (rl, i + length CRLF)"
        by (auto simp: parseRequestLine_def Let_def split: if_splits option.splits)
      with Inr st assms(3) show ?thesis by (auto simp: parseSingle_def CRLF_def)
    qed
  next
    assume st: "state r = StateHeaders"
    obtain k d e h where p: "Parse ul (Headers r) a = ((k, d, e), h)"
      by (metis surj_pair)
    with st assms(3) have "e = None" and "n = k"
      by (cases e; simp add: parseSingle_def)+
    with p assms(2) show ?thesis
      by (auto simp: Parse_def CRLF_def split: if_splits sum.splits)
  qed
qed

text \<open>
  In \<open>StateBody\<close> with a declared length \<open>N\<close> other than 0, \<open>parse\<close> appends all of its
  input to the body in one step.
\<close>

lemma parse_StateBody:
  assumes st: "state r = StateBody"
    and cl: "getAndValidateContentLength ul r = Inr N" and nz: "N \<noteq> 0"
  shows "parse ul r d =
           (if int (len_slice (append_slice (Body r) d)) > N
            then ((0, Some ErrBodyExceedsContentLength), r\<lparr>Body := append_slice (Body r) d\<rparr>)
            else if int (len_slice (append_slice (Body r) d)) = N
            then ((length d, None), r\<lparr>Body := append_slice (Body r) d, state := StateDone\<rparr>)
            else ((length d, None), r\<lparr>Body := append_slice (Body r) d\<rparr>))"
proof -
  let ?b = "append_slice (Body r) d"
  let ?r1 = "r\<lparr>Body := ?b\<rparr>"
  have nd: "state r \<noteq> StateDone" using st by simp
  have ps: "parseSingle ul r d =
          (if int (len_slice ?b) > N then ((0, Some ErrBodyExceedsContentLength), ?r1)
           else if int (len_slice ?b) = N then ((length d, None), ?r1\<lparr>state := StateDone\<rparr>)
           else ((length d, None), ?r1))"
    using st cl nz by (simp add: parseSingle_def Let_def)
  consider (over) "int (len_slice ?b) > N" | (full) "int (len_slice ?b) = N"
    | (part) "int (len_slice ?b) < N" by linarith
  then show ?thesis
  proof cases
    case over
    with ps have "parseSingle ul r d = ((0, Some ErrBodyExceedsContentLength), ?r1)" by simp
    from parse_error [OF nd this] over show ?thesis by simp
  next
    case full
    with ps have p: "parseSingle ul r d = ((length d, None), ?r1\<lparr>state := StateDone\<rparr>)"
      by simp
    show ?thesis
    proof (cases "length d = 0")
      case True
      with p have "parseSingle ul r d = ((0, None), ?r1\<lparr>state := StateDone\<rparr>)" by simp
      from parse_stop [OF nd this] full True show ?thesis by simp
    next
      case False
      have "parse ul (?r1\<lparr>state := StateDone\<rparr>) (drop (length d) d)
              = ((0, None), ?r1\<lparr>state := StateDone\<rparr>)"
        by (rule parse_Done) simp
      with parse_go [OF nd p False] full show ?thesis by simp
    qed
  next
    case part
    with ps have p: "parseSingle ul r d = ((length d, None), ?r1)" by simp
    show ?thesis
    proof (cases "length d = 0")
      case True
      with p have "parseSingle ul r d = ((0, None), ?r1)" by simp
      from parse_stop [OF nd this] part True show ?thesis by simp
    next
      case False
      have st1: "state ?r1 = StateBody" using st by simp
      have cl1: "getAndValidateContentLength ul ?r1 = Inr N"
        using cl getAndValidateContentLength_Headers [of ?r1 r ul] by simp
      have "append_slice (Body ?r1) [] = ?b" by (simp add: append_slice_def)
      then have "parseSingle ul ?r1 [] = ((0, None), ?r1)"
        using st1 cl1 nz part by (simp add: parseSingle_def Let_def)
      then have "parse ul ?r1 [] = ((0, None), ?r1)"
        using st1 by (intro parse_stop) simp_all
      with parse_go [OF nd p False] part show ?thesis by simp
    qed
  qed
qed

lemma parse_StateBody_zero:
  assumes "state r = StateBody" and "getAndValidateContentLength ul r = Inr 0"
  shows "parse ul r d = ((0, None), r\<lparr>state := StateDone\<rparr>)"
proof -
  from assms have "parseSingle ul r d = ((0, None), r\<lparr>state := StateDone\<rparr>)"
    by (simp add: parseSingle_def)
  with assms(1) show ?thesis by (intro parse_stop) simp_all
qed

lemma append_slice_append:
  "append_slice (append_slice s a) b = append_slice s (a @ b)"
  by (simp add: append_slice_def)

lemma len_slice_append_slice:
  "len_slice (append_slice s a) = len_slice s + length a"
  by (simp add: append_slice_def len_slice_def split: option.splits)


lemma state_cases:
  obtains (fin) "state r = StateDone" | (body) "state r = StateBody"
    | (line) "state r = StateInitialized \<or> state r = StateHeaders"
  by (cases "state r") auto

text \<open>
  After a run of \<open>parse\<close> without error, a second run on the bytes it left consumes
  nothing and changes nothing.
\<close>

lemma parse_quiescent:
  "parse ul r a = ((k, None), r') \<Longrightarrow> parse ul r' (drop k a) = ((0, None), r')"
proof (induction "length a" arbitrary: r a k rule: less_induct)
  case less
  note p = less.prems
  show ?case
  proof (cases r rule: state_cases)
    case fin
    with p have "k = 0" "r' = r" by (simp_all add: parse_Done)
    with fin show ?thesis by (simp add: parse_Done)
  next
    case body
    show ?thesis
    proof (cases "getAndValidateContentLength ul r")
      case (Inl e)
      with body p show ?thesis by (simp add: parse_content_length_error)
    next
      case (Inr N)
      show ?thesis
      proof (cases "N = 0")
        case True
        with body Inr p have "r' = r\<lparr>state := StateDone\<rparr>"
          by (simp add: parse_StateBody_zero)
        then show ?thesis by (simp add: parse_Done)
      next
        case False
        note pb = parse_StateBody [OF body Inr False, of a]
        let ?b = "append_slice (Body r) a"
        from p pb have no: "\<not> int (len_slice ?b) > N" by (auto split: if_splits)
        show ?thesis
        proof (cases "int (len_slice ?b) = N")
          case True
          with p pb have "r' = r\<lparr>Body := ?b, state := StateDone\<rparr>" by simp
          then show ?thesis by (simp add: parse_Done)
        next
          case lt: False
          with p pb no have k: "k = length a" and r': "r' = r\<lparr>Body := ?b\<rparr>" by simp_all
          have st: "state r' = StateBody" using body r' by simp
          have cl: "getAndValidateContentLength ul r' = Inr N"
            using Inr getAndValidateContentLength_Headers [of r' r ul] r' by simp
          have e: "append_slice (Body r') [] = ?b" by (simp add: r' append_slice_def)
          have "r'\<lparr>Body := ?b\<rparr> = r'" by (simp add: r')
          with parse_StateBody [OF st cl False, of "[]"] no lt e
          have "parse ul r' [] = ((0, None), r')" by simp
          with k show ?thesis by simp
        qed
      qed
    qed
  next
    case line
    then have nd: "state r \<noteq> StateDone" by auto
    show ?thesis
    proof (cases "Index a CRLF")
      case None
      from parseSingle_line_wait [OF line None]
      have ps: "parseSingle ul r a = ((0, None), r)" .
      from parse_stop [OF nd ps] p have "k = 0" "r' = r" by simp_all
      with parse_stop [OF nd ps] show ?thesis by simp
    next
      case (Some i)
      obtain n e r1 where ps: "parseSingle ul r a = ((n, e), r1)" by (metis surj_pair)
      show ?thesis
      proof (cases e)
        case (Some err)
        with ps have "parseSingle ul r a = ((n, Some err), r1)" by simp
        from parse_error [OF nd this] p show ?thesis by simp
      next
        case None
        with ps have ps': "parseSingle ul r a = ((n, None), r1)" by simp
        from parseSingle_line_progress [OF line Some ps'] have nz: "n \<noteq> 0" by simp
        from ps' have le: "n \<le> length a" by (rule parseSingle_consumed_le)
        obtain k1 e1 r2 where rest: "parse ul r1 (drop n a) = ((k1, e1), r2)"
          by (metis surj_pair)
        from parse_go [OF nd ps' nz] rest p have k: "k = n + k1" and "e1 = None" "r2 = r'"
          by simp_all
        with rest have rest': "parse ul r1 (drop n a) = ((k1, None), r')" by simp
        have "length (drop n a) < length a" using nz le by simp
        from less.hyps [OF this rest']
        have "parse ul r' (drop k1 (drop n a)) = ((0, None), r')" .
        then show ?thesis using k by (simp add: add.commute)
      qed
    qed
  qed
qed

text \<open>
  If \<open>parse\<close> accepts \<open>a @ b\<close> given at once, it accepts the part \<open>a\<close> given alone, and
  going on from there with the bytes it left and \<open>b\<close> ends in the same request.
\<close>

lemma parse_prefix:
  "parse ul r (a @ b) = ((m, None), rf) \<Longrightarrow>
     \<exists>k r' m'. parse ul r a = ((k, None), r') \<and> k \<le> length a
               \<and> parse ul r' (drop k a @ b) = ((m', None), rf)"
proof (induction "length a" arbitrary: r a m rule: less_induct)
  case less
  note p = less.prems
  show ?case
  proof (cases r rule: state_cases)
    case fin
    then have "parse ul r a = ((0, None), r)" by (rule parse_Done)
    with p show ?thesis by auto
  next
    case body
    show ?thesis
    proof (cases "getAndValidateContentLength ul r")
      case (Inl e)
      with body p show ?thesis by (simp add: parse_content_length_error)
    next
      case (Inr N)
      show ?thesis
      proof (cases "N = 0")
        case True
        with body Inr p have rf: "rf = r\<lparr>state := StateDone\<rparr>"
          by (simp add: parse_StateBody_zero)
        from True body Inr have "parse ul r a = ((0, None), rf)"
          by (simp add: parse_StateBody_zero rf)
        moreover have "parse ul rf (drop 0 a @ b) = ((0, None), rf)"
          by (rule parse_Done) (simp add: rf)
        ultimately show ?thesis by blast
      next
        case False
        note pab = parse_StateBody [OF body Inr False, of "a @ b"]
        note pa = parse_StateBody [OF body Inr False, of a]
        let ?la = "int (len_slice (Body r) + length a)"
        let ?lab = "int (len_slice (Body r) + length a + length b)"
        from p pab have no: "\<not> ?lab > N"
          by (auto simp: len_slice_append_slice split: if_splits)
        then have noa: "\<not> ?la > N" by simp
        show ?thesis
        proof (cases "?la = N")
          case True
          with no have b: "b = []" by simp
          from True pa have 1: "parse ul r a
              = ((length a, None), r\<lparr>Body := append_slice (Body r) a, state := StateDone\<rparr>)"
            by (simp add: len_slice_append_slice)
          from True p pab b
          have rf: "rf = r\<lparr>Body := append_slice (Body r) a, state := StateDone\<rparr>"
            by (simp add: len_slice_append_slice)
          have "parse ul rf (drop (length a) a @ b) = ((0, None), rf)"
            by (rule parse_Done) (simp add: rf)
          with 1 rf show ?thesis by blast
        next
          case lt: False
          let ?r' = "r\<lparr>Body := append_slice (Body r) a\<rparr>"
          from lt noa pa have 1: "parse ul r a = ((length a, None), ?r')"
            by (simp add: len_slice_append_slice)
          have st: "state ?r' = StateBody" using body by simp
          have cl: "getAndValidateContentLength ul ?r' = Inr N"
            using Inr getAndValidateContentLength_Headers [of ?r' r ul] by simp
          have "parse ul ?r' b = ((length b, None), rf)"
            using parse_StateBody [OF st cl False, of b] p pab no
            by (simp add: len_slice_append_slice append_slice_append add.assoc split: if_splits)
          then have "parse ul ?r' (drop (length a) a @ b) = ((length b, None), rf)" by simp
          with 1 show ?thesis by blast
        qed
      qed
    qed
  next
    case line
    then have nd: "state r \<noteq> StateDone" by auto
    show ?thesis
    proof (cases "Index a CRLF")
      case None
      from parseSingle_line_wait [OF line None]
      have "parseSingle ul r a = ((0, None), r)" .
      from parse_stop [OF nd this] have "parse ul r a = ((0, None), r)" .
      with p show ?thesis by auto
    next
      case (Some i)
      obtain n e r1 where ps: "parseSingle ul r a = ((n, e), r1)" by (metis surj_pair)
      have psab: "parseSingle ul r (a @ b) = ((n, e), r1)"
        using parseSingle_line_append [OF line Some, of ul b] ps by simp
      show ?thesis
      proof (cases e)
        case (Some err)
        with psab have "parseSingle ul r (a @ b) = ((n, Some err), r1)" by simp
        from parse_error [OF nd this] p show ?thesis by simp
      next
        case None
        with ps psab have ps': "parseSingle ul r a = ((n, None), r1)"
          and psab': "parseSingle ul r (a @ b) = ((n, None), r1)" by simp_all
        from parseSingle_line_progress [OF line Some ps'] have nz: "n \<noteq> 0" by simp
        from ps' have le: "n \<le> length a" by (rule parseSingle_consumed_le)
        then have d: "drop n (a @ b) = drop n a @ b" by simp
        obtain m1 e1 r2 where rest: "parse ul r1 (drop n a @ b) = ((m1, e1), r2)"
          by (metis surj_pair)
        from parse_go [OF nd psab' nz] rest p d have "e1 = None" "r2 = rf" by simp_all
        with rest have rest': "parse ul r1 (drop n a @ b) = ((m1, None), rf)" by simp
        have "length (drop n a) < length a" using nz le by simp
        from less.hyps [OF this rest'] obtain k1 r' m'
          where 1: "parse ul r1 (drop n a) = ((k1, None), r')"
            and 2: "k1 \<le> length (drop n a)"
            and 3: "parse ul r' (drop k1 (drop n a) @ b) = ((m', None), rf)"
          by blast
        from parse_go [OF nd ps' nz] 1 have "parse ul r a = ((n + k1, None), r')" by simp
        moreover from 2 le have "n + k1 \<le> length a" by simp
        moreover from 3 have "parse ul r' (drop (n + k1) a @ b) = ((m', None), rf)"
          by (simp add: add.commute)
        ultimately show ?thesis by blast
      qed
    qed
  qed
qed

text \<open>
  The other way round: if \<open>parse\<close> accepts \<open>a\<close> without reaching \<open>StateDone\<close>, and going
  on with the bytes it left and \<open>b\<close> is accepted too, then \<open>a @ b\<close> given at once is
  accepted with the same request.
\<close>

lemma parse_extend:
  "parse ul r a = ((k, None), r') \<Longrightarrow> state r' \<noteq> StateDone \<Longrightarrow>
   parse ul r' (drop k a @ b) = ((m', None), rf) \<Longrightarrow>
     \<exists>m. parse ul r (a @ b) = ((m, None), rf)"
proof (induction "length a" arbitrary: r a k m' rule: less_induct)
  case less
  note p = less.prems(1) and nd' = less.prems(2) and q = less.prems(3)
  show ?case
  proof (cases r rule: state_cases)
    case fin
    with p have "r' = r" by (simp add: parse_Done)
    with fin nd' show ?thesis by simp
  next
    case body
    show ?thesis
    proof (cases "getAndValidateContentLength ul r")
      case (Inl e)
      with body p show ?thesis by (simp add: parse_content_length_error)
    next
      case (Inr N)
      show ?thesis
      proof (cases "N = 0")
        case True
        with body Inr p have "r' = r\<lparr>state := StateDone\<rparr>"
          by (simp add: parse_StateBody_zero)
        with nd' show ?thesis by simp
      next
        case False
        note pab = parse_StateBody [OF body Inr False, of "a @ b"]
        note pa = parse_StateBody [OF body Inr False, of a]
        let ?r1 = "r\<lparr>Body := append_slice (Body r) a\<rparr>"
        from p pa nd' have k: "k = length a" and r': "r' = ?r1"
          and lt: "int (len_slice (Body r) + length a) < N"
          by (auto simp: len_slice_append_slice split: if_splits)
        have st: "state ?r1 = StateBody" using body by simp
        have cl: "getAndValidateContentLength ul ?r1 = Inr N"
          using Inr getAndValidateContentLength_Headers [of ?r1 r ul] by simp
        from q k r' have "parse ul ?r1 b = ((m', None), rf)" by simp
        with parse_StateBody [OF st cl False, of b] pab
        have "parse ul r (a @ b) = ((length (a @ b), None), rf)"
          by (simp add: len_slice_append_slice append_slice_append add.assoc split: if_splits)
        then show ?thesis by blast
      qed
    qed
  next
    case line
    then have nd: "state r \<noteq> StateDone" by auto
    show ?thesis
    proof (cases "Index a CRLF")
      case None
      from parseSingle_line_wait [OF line None]
      have "parseSingle ul r a = ((0, None), r)" .
      from parse_stop [OF nd this] p have "k = 0" "r' = r" by simp_all
      with q show ?thesis by auto
    next
      case (Some i)
      obtain n e r1 where ps: "parseSingle ul r a = ((n, e), r1)" by (metis surj_pair)
      have psab: "parseSingle ul r (a @ b) = ((n, e), r1)"
        using parseSingle_line_append [OF line Some, of ul b] ps by simp
      show ?thesis
      proof (cases e)
        case (Some err)
        with ps have "parseSingle ul r a = ((n, Some err), r1)" by simp
        from parse_error [OF nd this] p show ?thesis by simp
      next
        case None
        with ps psab have ps': "parseSingle ul r a = ((n, None), r1)"
          and psab': "parseSingle ul r (a @ b) = ((n, None), r1)" by simp_all
        from parseSingle_line_progress [OF line Some ps'] have nz: "n \<noteq> 0" by simp
        from ps' have le: "n \<le> length a" by (rule parseSingle_consumed_le)
        then have d: "drop n (a @ b) = drop n a @ b" by simp
        obtain k1 e1 r2 where rest: "parse ul r1 (drop n a) = ((k1, e1), r2)"
          by (metis surj_pair)
        from parse_go [OF nd ps' nz] rest p have k: "k = n + k1" and "e1 = None" "r2 = r'"
          by simp_all
        with rest have rest': "parse ul r1 (drop n a) = ((k1, None), r')" by simp
        from q k have q': "parse ul r' (drop k1 (drop n a) @ b) = ((m', None), rf)"
          by (simp add: add.commute)
        have "length (drop n a) < length a" using nz le by simp
        from less.hyps [OF this rest' nd' q'] obtain m1
          where "parse ul r1 (drop n a @ b) = ((m1, None), rf)" by blast
        with parse_go [OF nd psab' nz] d have "parse ul r (a @ b) = ((n + m1, None), rf)"
          by simp
        then show ?thesis by blast
      qed
    qed
  qed
qed

end
